theory Spec2Isabelle
  imports Main
begin

section \<open>Python strings\<close>

text \<open>
  The statement parsers work on text extracted from PDF files.  A Python \<open>str\<close> is
  modelled as a \<open>string\<close>, a list of characters with codes below 256, read as the
  Unicode characters of these codes (ASCII and the Latin-1 supplement).  White space
  (\<open>str.isspace\<close>, \<open>\s\<close>), line boundaries, decimal digits (\<open>\d\<close>), word characters
  (\<open>\w\<close>, \<open>\b\<close>) and the case mappings are those of Python for these codes.
\<close>

definition isspace :: "char \<Rightarrow> bool" where
  "isspace c = (c \<in> set [CHR '' '', CHR 0x09, CHR 0x0A, CHR 0x0B, CHR 0x0C, CHR 0x0D,
                        CHR 0x1C, CHR 0x1D, CHR 0x1E, CHR 0x1F, CHR 0x85, CHR 0xA0])"

text \<open>\<open>\d\<close>: the decimal digits; below 256 these are \<open>0\<close> to \<open>9\<close>.\<close>

definition isdecimal :: "char \<Rightarrow> bool" where
  "isdecimal c = (c \<in> set ''0123456789'')"

text \<open>The ranges \<open>A-Z\<close> and \<open>a-z\<close> of a character class.\<close>

definition in_A_Z :: "char \<Rightarrow> bool" where
  "in_A_Z c = (c \<in> set ''ABCDEFGHIJKLMNOPQRSTUVWXYZ'')"

definition in_a_z :: "char \<Rightarrow> bool" where
  "in_a_z c = (c \<in> set ''abcdefghijklmnopqrstuvwxyz'')"

text \<open>
  The letters of the Latin-1 supplement that have both cases there: the capitals
  \<open>0xC0\<close> to \<open>0xDE\<close> without the multiplication sign \<open>0xD7\<close>, and the small letters
  \<open>0xE0\<close> to \<open>0xFE\<close> without the division sign \<open>0xF7\<close>, each 32 above its capital.
\<close>

definition latin_capital :: "char \<Rightarrow> bool" where
  "latin_capital c =
     (c \<in> set [CHR 0xC0, CHR 0xC1, CHR 0xC2, CHR 0xC3, CHR 0xC4, CHR 0xC5, CHR 0xC6, CHR 0xC7,
                CHR 0xC8, CHR 0xC9, CHR 0xCA, CHR 0xCB, CHR 0xCC, CHR 0xCD, CHR 0xCE, CHR 0xCF,
                CHR 0xD0, CHR 0xD1, CHR 0xD2, CHR 0xD3, CHR 0xD4, CHR 0xD5, CHR 0xD6,
                CHR 0xD8, CHR 0xD9, CHR 0xDA, CHR 0xDB, CHR 0xDC, CHR 0xDD, CHR 0xDE])"

definition latin_small :: "char \<Rightarrow> bool" where
  "latin_small c =
     (c \<in> set [CHR 0xE0, CHR 0xE1, CHR 0xE2, CHR 0xE3, CHR 0xE4, CHR 0xE5, CHR 0xE6, CHR 0xE7,
                CHR 0xE8, CHR 0xE9, CHR 0xEA, CHR 0xEB, CHR 0xEC, CHR 0xED, CHR 0xEE, CHR 0xEF,
                CHR 0xF0, CHR 0xF1, CHR 0xF2, CHR 0xF3, CHR 0xF4, CHR 0xF5, CHR 0xF6,
                CHR 0xF8, CHR 0xF9, CHR 0xFA, CHR 0xFB, CHR 0xFC, CHR 0xFD, CHR 0xFE])"

text \<open>
  \<open>\w\<close>: the alphanumeric characters and the underscore.  Above ASCII these are the
  letters of both cases, the sharp s \<open>0xDF\<close> and \<open>0xFF\<close>, the ordinal indicators \<open>0xAA\<close>
  and \<open>0xBA\<close>, the micro sign \<open>0xB5\<close>, the superscript digits \<open>0xB2\<close>, \<open>0xB3\<close>, \<open>0xB9\<close> and
  the fractions \<open>0xBC\<close> to \<open>0xBE\<close>.
\<close>

definition isword :: "char \<Rightarrow> bool" where
  "isword c =
     (isdecimal c \<or> in_A_Z c \<or> in_a_z c \<or> c = CHR ''_'' \<or> latin_capital c \<or> latin_small c
      \<or> c \<in> set [CHR 0xDF, CHR 0xFF, CHR 0xAA, CHR 0xBA, CHR 0xB5, CHR 0xB2, CHR 0xB3, CHR 0xB9,
                   CHR 0xBC, CHR 0xBD, CHR 0xBE])"

text \<open>
  Case mapping of one character: a small letter is its capital plus 32, that is, with
  bit 5 of the code set.  \<open>str.lower\<close> maps character by character.  \<open>str.upper\<close> does
  so too, except that the capital of the sharp s is \<open>SS\<close>.  The capitals of the micro sign
  \<open>0xB5\<close> and of \<open>0xFF\<close> are the only ones with a code above 255 (\<open>0x39C\<close> and \<open>0x178\<close>);
  \<open>str_upper\<close> keeps these two characters, which like their capitals are equal to no
  character of ASCII.
\<close>

definition lower_char :: "char \<Rightarrow> char" where
  "lower_char c =
     (if in_A_Z c \<or> latin_capital c
      then (case c of Char b0 b1 b2 b3 b4 b5 b6 b7 \<Rightarrow> Char b0 b1 b2 b3 b4 True b6 b7)
      else c)"

definition upper_char :: "char \<Rightarrow> char" where
  "upper_char c =
     (if in_a_z c \<or> latin_small c
      then (case c of Char b0 b1 b2 b3 b4 b5 b6 b7 \<Rightarrow> Char b0 b1 b2 b3 b4 False b6 b7)
      else c)"

definition str_upper :: "string \<Rightarrow> string" where
  "str_upper s = concat (map (\<lambda>c. if c = CHR 0xDF then ''SS'' else [upper_char c]) s)"

definition str_lower :: "string \<Rightarrow> string" where
  "str_lower s = map lower_char s"

text \<open>\<open>s.strip()\<close>: leading and trailing white space removed.\<close>

definition strip :: "string \<Rightarrow> string" where
  "strip s = rev (dropWhile isspace (rev (dropWhile isspace s)))"

text \<open>\<open>s.replace(c, "")\<close> and \<open>s.replace(c, d)\<close> for one-character arguments.\<close>

definition remove_char :: "char \<Rightarrow> string \<Rightarrow> string" where
  "remove_char c s = filter (\<lambda>x. x \<noteq> c) s"

definition replace_char :: "char \<Rightarrow> char \<Rightarrow> string \<Rightarrow> string" where
  "replace_char c d s = map (\<lambda>x. if x = c then d else x) s"

definition startswith :: "string \<Rightarrow> string \<Rightarrow> bool" where
  "startswith s p = (take (length p) s = p)"

definition endswith :: "string \<Rightarrow> string \<Rightarrow> bool" where
  "endswith s p = (length p \<le> length s \<and> drop (length s - length p) s = p)"

text \<open>\<open>s.find(sub)\<close>: the first index at which \<open>sub\<close> occurs, \<open>None\<close> for Python's \<open>-1\<close>.\<close>

fun find_from :: "string \<Rightarrow> nat \<Rightarrow> string \<Rightarrow> nat option" where
  "find_from sub i [] = (if sub = [] then Some i else None)"
| "find_from sub i (c # cs) =
     (if take (length sub) (c # cs) = sub then Some i else find_from sub (Suc i) cs)"

definition str_find :: "string \<Rightarrow> string \<Rightarrow> nat option" where
  "str_find s sub = find_from sub 0 s"

text \<open>\<open>sub in s\<close>.\<close>

definition str_in :: "string \<Rightarrow> string \<Rightarrow> bool" where
  "str_in sub s = (case str_find s sub of None \<Rightarrow> False | Some _ \<Rightarrow> True)"

text \<open>\<open>sep.join(parts)\<close>.\<close>

fun join :: "string \<Rightarrow> string list \<Rightarrow> string" where
  "join sep [] = []"
| "join sep [x] = x"
| "join sep (x # y # ys) = x @ sep @ join sep (y # ys)"

text \<open>
  \<open>s.splitlines()\<close>: the lines of \<open>s\<close> without their line ends; a line ends at
  \<open>\n\<close>, \<open>\r\<close>, \<open>\r\n\<close>, vertical tab, form feed, one of the separators
  \<open>0x1C\<close>, \<open>0x1D\<close>, \<open>0x1E\<close> or the next-line character \<open>0x85\<close>, and a final line
  end opens no further line.
\<close>

definition is_linebreak :: "char \<Rightarrow> bool" where
  "is_linebreak c =
     (c \<in> set [CHR 0x0A, CHR 0x0B, CHR 0x0C, CHR 0x0D, CHR 0x1C, CHR 0x1D, CHR 0x1E, CHR 0x85])"

fun splitlines_acc :: "string \<Rightarrow> string \<Rightarrow> string list" where
  "splitlines_acc acc [] = (if acc = [] then [] else [rev acc])"
| "splitlines_acc acc [c] =
     (if is_linebreak c then [rev acc] else [rev (c # acc)])"
| "splitlines_acc acc (c # d # cs) =
     (if c = CHR 0x0D \<and> d = CHR 0x0A then rev acc # splitlines_acc [] cs
      else if is_linebreak c then rev acc # splitlines_acc [] (d # cs)
      else splitlines_acc (c # acc) (d # cs))"

definition splitlines :: "string \<Rightarrow> string list" where
  "splitlines s = splitlines_acc [] s"

text \<open>\<open>re.sub(r"\s+", "", s)\<close>: every run of white space removed.\<close>

definition remove_ws :: "string \<Rightarrow> string" where
  "remove_ws s = filter (\<lambda>c. \<not> isspace c) s"

text \<open>\<open>re.sub(r"\s+", " ", s)\<close>: every run of white space replaced by one blank.\<close>

fun collapse_from :: "bool \<Rightarrow> string \<Rightarrow> string" where
  "collapse_from in_run [] = []"
| "collapse_from in_run (c # cs) =
     (if isspace c then (if in_run then collapse_from True cs else CHR '' '' # collapse_from True cs)
      else c # collapse_from False cs)"

definition collapse_ws :: "string \<Rightarrow> string" where
  "collapse_ws s = collapse_from False s"

text \<open>Decimal digits.\<close>

definition digit_val :: "char \<Rightarrow> nat" where
  "digit_val c = of_char c - 48"

definition digit_char :: "nat \<Rightarrow> char" where
  "digit_char n = char_of (48 + n mod 10)"

definition nat_of_digits :: "string \<Rightarrow> nat" where
  "nat_of_digits s = foldl (\<lambda>n c. 10 * n + digit_val c) 0 s"

section \<open>Regular expressions\<close>

text \<open>
  The scripts describe markers, record starts and amounts by regular expressions of
  Python's \<open>re\<close> module.  The patterns are embedded as values of the type \<open>regex\<close>, and
  \<open>ms\<close> is a backtracking matcher: from one position it returns every way the
  pattern can match there, in the order in which Python's engine tries them (greedy
  repetitions longest first, lazy ones shortest first, alternatives left to right),
  so that the head of the list is the match Python reports.  A position is the
  groups captured so far, the character before the position (\<open>None\<close> at the start of
  the text) and the text still to be read.
\<close>

datatype cclass =
    Lit char
  | Digit
  | Space
  | Upper
  | UpperDigit
  | Dot
  | DotAll
  | OneOf string

fun cmatch :: "cclass \<Rightarrow> char \<Rightarrow> bool" where
  "cmatch (Lit a) c = (c = a)"
| "cmatch Digit c = isdecimal c"
| "cmatch Space c = isspace c"
| "cmatch Upper c = in_A_Z c"
| "cmatch UpperDigit c = (in_A_Z c \<or> isdecimal c)"
| "cmatch Dot c = (c \<noteq> CHR 0x0A)"
| "cmatch DotAll c = True"
| "cmatch (OneOf cs) c = (c \<in> set cs)"

datatype regex =
    Eps
  | Atom cclass
  | Seq regex regex
  | Alt regex regex
  | Star regex
  | LazyStar regex
  | Group string regex
  | Bol
  | Eol
  | WordB
  | Ahead regex

type_synonym caps = "(string \<times> string) list"
type_synonym mstate = "caps \<times> char option \<times> string"

fun ms :: "regex \<Rightarrow> mstate \<Rightarrow> mstate list" where
  "ms Eps st = [st]"
| "ms (Atom a) (g, p, []) = []"
| "ms (Atom a) (g, p, c # cs) = (if cmatch a c then [(g, Some c, cs)] else [])"
| "ms (Seq r1 r2) st = concat (map (ms r2) (ms r1 st))"
| "ms (Alt r1 r2) st = ms r1 st @ ms r2 st"
| "ms (Star r) (g, p, s) =
     concat (map (\<lambda>(g', p', s'). if length s' < length s then ms (Star r) (g', p', s') else [])
                 (ms r (g, p, s))) @ [(g, p, s)]"
| "ms (LazyStar r) (g, p, s) =
     (g, p, s) #
     concat (map (\<lambda>(g', p', s'). if length s' < length s then ms (LazyStar r) (g', p', s') else [])
                 (ms r (g, p, s)))"
| "ms (Group n r) (g, p, s) =
     map (\<lambda>(g', p', s'). ((n, take (length s - length s') s) # g', p', s')) (ms r (g, p, s))"
| "ms Bol (g, p, s) = (if p = None then [(g, p, s)] else [])"
| "ms Eol (g, p, s) = (if s = [] \<or> s = [CHR 0x0A] then [(g, p, s)] else [])"
| "ms WordB (g, p, s) =
     (if (case p of None \<Rightarrow> False | Some c \<Rightarrow> isword c) = (case s of [] \<Rightarrow> False | c # _ \<Rightarrow> isword c)
      then [] else [(g, p, s)])"
| "ms (Ahead r) st = (if ms r st = [] then [] else [st])"

text \<open>
  Pattern notation: literals, literals under \<open>IGNORECASE\<close> (each character of the
  literal matches in either case), \<open>r?\<close>, \<open>r+\<close>, \<open>r+?\<close>, \<open>\s*\<close>, \<open>\s+\<close>, \<open>\d\<close>.
\<close>

definition lit :: "string \<Rightarrow> regex" where
  "lit s = foldr (\<lambda>c r. Seq (Atom (Lit c)) r) s Eps"

definition lit_i :: "string \<Rightarrow> regex" where
  "lit_i s = foldr (\<lambda>c r. Seq (Atom (OneOf [lower_char c, upper_char c])) r) s Eps"

definition seqs :: "regex list \<Rightarrow> regex" where
  "seqs rs = foldr Seq rs Eps"

definition opt :: "regex \<Rightarrow> regex" where
  "opt r = Alt r Eps"

definition plus :: "regex \<Rightarrow> regex" where
  "plus r = Seq r (Star r)"

definition lazy_plus :: "regex \<Rightarrow> regex" where
  "lazy_plus r = Seq r (LazyStar r)"

definition ws0 :: regex where
  "ws0 = Star (Atom Space)"

definition ws1 :: regex where
  "ws1 = plus (Atom Space)"

definition dg :: regex where
  "dg = Atom Digit"

text \<open>
  A match object: \<open>m.start()\<close>, \<open>m.end()\<close> and the captured groups
  (\<open>m.group(name)\<close> is \<open>None\<close> for a group that took no part in the match).
\<close>

record rmatch =
  mstart :: nat
  mend :: nat
  mgroups :: caps

definition mk_match :: "nat \<Rightarrow> string \<Rightarrow> mstate \<Rightarrow> rmatch" where
  "mk_match i s st =
     (case st of (g, p', s') \<Rightarrow> \<lparr>mstart = i, mend = i + (length s - length s'), mgroups = g\<rparr>)"

definition group :: "rmatch \<Rightarrow> string \<Rightarrow> string option" where
  "group m n = map_of (mgroups m) n"

text \<open>\<open>pattern.match(s)\<close>: the pattern at the start of \<open>s\<close>.\<close>

definition re_match :: "regex \<Rightarrow> string \<Rightarrow> rmatch option" where
  "re_match r s = (case ms r ([], None, s) of [] \<Rightarrow> None | st # _ \<Rightarrow> Some (mk_match 0 s st))"

text \<open>\<open>pattern.fullmatch(s)\<close>: the first way to match that reads all of \<open>s\<close>.\<close>

definition re_fullmatch :: "regex \<Rightarrow> string \<Rightarrow> rmatch option" where
  "re_fullmatch r s =
     (case filter (\<lambda>(g, p', s'). s' = []) (ms r ([], None, s)) of
        [] \<Rightarrow> None | st # _ \<Rightarrow> Some (mk_match 0 s st))"

text \<open>\<open>pattern.search(s)\<close>: the leftmost position at which the pattern matches.\<close>

fun search_from :: "regex \<Rightarrow> nat \<Rightarrow> char option \<Rightarrow> string \<Rightarrow> rmatch option" where
  "search_from r i p [] =
     (case ms r ([], p, []) of [] \<Rightarrow> None | st # _ \<Rightarrow> Some (mk_match i [] st))"
| "search_from r i p (c # cs) =
     (case ms r ([], p, c # cs) of
        [] \<Rightarrow> search_from r (Suc i) (Some c) cs
      | st # _ \<Rightarrow> Some (mk_match i (c # cs) st))"

definition re_search :: "regex \<Rightarrow> string \<Rightarrow> rmatch option" where
  "re_search r s = search_from r 0 None s"

definition is_some :: "'a option \<Rightarrow> bool" where
  "is_some x = (case x of None \<Rightarrow> False | Some _ \<Rightarrow> True)"

text \<open>
  \<open>pattern.finditer(s)\<close>: the matches from left to right, each search starting where
  the match before it ended (one character further on after an empty match).
\<close>

function finditer_from :: "regex \<Rightarrow> nat \<Rightarrow> char option \<Rightarrow> string \<Rightarrow> rmatch list" where
  "finditer_from r i p [] =
     (case ms r ([], p, []) of [] \<Rightarrow> [] | st # _ \<Rightarrow> [mk_match i [] st])"
| "finditer_from r i p (c # cs) =
     (case ms r ([], p, c # cs) of
        [] \<Rightarrow> finditer_from r (Suc i) (Some c) cs
      | (g, p', s') # _ \<Rightarrow>
          mk_match i (c # cs) (g, p', s') #
          (if length s' \<le> length cs
           then finditer_from r (i + (length (c # cs) - length s')) p' s'
           else finditer_from r (Suc i) (Some c) cs))"
  by pat_completeness auto
termination
  by (relation "measure (\<lambda>(r, i, p, s). length s)") auto

definition re_finditer :: "regex \<Rightarrow> string \<Rightarrow> rmatch list" where
  "re_finditer r s = finditer_from r 0 None s"

section \<open>UOB credit card statements\<close>

text \<open>
  The script \<open>02-Automate-UOB-Credit-Statements.py\<close>.  Reading the PDF is outside the model:
  every function that takes a path in the script takes the text of the document here
  (\<open>all_text\<close>, the pages joined by line feeds), and the year, which the script derives
  from the folder of the file, is a parameter.
\<close>

definition uob_start_marker :: string where
  "uob_start_marker = ''Post Trans Description of Transaction Transaction Amount''"

definition uob_end_marker :: string where
  "uob_end_marker = ''SUB TOTAL''"

text \<open>
  \<open>START_MARKER_RE\<close>:
  \<^verbatim>\<open>Post\s*(?:Date\s*)?Trans\s*(?:Date\s*)?Description\s*of\s*Transaction\s*Transaction\s*Amount\<close>,
  ignoring case; \<open>END_MARKER_RE\<close>: \<^verbatim>\<open>SUB\s*TOTAL\<close>, ignoring case.
\<close>

definition uob_START_MARKER_RE :: regex where
  "uob_START_MARKER_RE =
     seqs [lit_i ''Post'', ws0, opt (seqs [lit_i ''Date'', ws0]),
           lit_i ''Trans'', ws0, opt (seqs [lit_i ''Date'', ws0]),
           lit_i ''Description'', ws0, lit_i ''of'', ws0, lit_i ''Transaction'', ws0,
           lit_i ''Transaction'', ws0, lit_i ''Amount'']"

definition uob_END_MARKER_RE :: regex where
  "uob_END_MARKER_RE = seqs [lit_i ''SUB'', ws0, lit_i ''TOTAL'']"

text \<open>\<open>_compact\<close>: all white space removed.\<close>

definition uob_compact :: "string \<Rightarrow> string" where
  "uob_compact s = remove_ws s"

datatype py_error = ValueError | IndexError

text \<open>
  The script defines \<open>extract_section_text\<close> twice.  This is the first definition
  (lines 38 to 80): when the tolerant pattern finds no start marker it looks for the
  marker in the text without white space and maps the index found back to the text.
\<close>

text \<open>
  \<open>raw_index_from_compact\<close> is the table of the first definition: the index in the text
  of every character that is not white space.  \<open>uob_cut_at_end\<close> is the end of both
  definitions: the end marker is searched in the text from the start marker on, and the
  section runs up to the end of its match.
\<close>

definition raw_index_from_compact :: "string \<Rightarrow> nat list" where
  "raw_index_from_compact all_text =
     map fst (filter (\<lambda>(raw_i, ch). \<not> isspace ch) (zip [0..<length all_text] all_text))"

definition uob_cut_at_end :: "string \<Rightarrow> string option" where
  "uob_cut_at_end after_start =
     (case re_search uob_END_MARKER_RE after_start of
        None \<Rightarrow> None
      | Some m_end \<Rightarrow> Some (take (mend m_end) after_start))"

definition uob_extract_section_text_first :: "string \<Rightarrow> py_error + string option" where
  "uob_extract_section_text_first all_text =
     (case re_search uob_START_MARKER_RE all_text of
        None \<Rightarrow>
          (let compact_text = uob_compact all_text;
               compact_start = uob_compact uob_start_marker;
               idx = (case str_find compact_text compact_start of
                        None \<Rightarrow>
                          str_find (str_lower compact_text)
                            (uob_compact (str_lower ''PostTransDescriptionofTransactionTransactionAmount''))
                      | Some i \<Rightarrow> Some i)
           in case idx of
                None \<Rightarrow> Inr None
              | Some i \<Rightarrow>
                  (let tbl = raw_index_from_compact all_text
                   in if i < length tbl
                      then Inr (uob_cut_at_end (drop (tbl ! i) all_text))
                      else Inl IndexError))
      | Some m_start \<Rightarrow> Inr (uob_cut_at_end (drop (mstart m_start) all_text)))"

text \<open>
  The second definition (lines 165 to 183) replaces the first when the script is
  loaded, so it is the one the rest of the script calls.
\<close>

definition uob_extract_section_text :: "string \<Rightarrow> string option" where
  "uob_extract_section_text all_text =
     (case re_search uob_START_MARKER_RE all_text of
        None \<Rightarrow> None
      | Some m_start \<Rightarrow> uob_cut_at_end (drop (mstart m_start) all_text))"

text \<open>
  \<open>TX_START_RE\<close>: \<^verbatim>\<open>^(?P<post>\d{2}\s+[A-Z]{3})\s+(?P<trans>\d{2}\s+[A-Z]{3})\s+(?P<rest>.+)$\<close>.
  \<open>AMT_AT_END_RE\<close>: \<^verbatim>\<open>(?P<num>\d{1,3}(?:,\d{3})*\.\d{2})\s*(?P<suffix>CR|DR)?$\<close>, ignoring case.
  \<open>AMT_ONLY_RE\<close>: the same between \<^verbatim>\<open>^\<close> and \<^verbatim>\<open>$\<close>.
\<close>

definition day_mon :: regex where
  "day_mon = seqs [dg, dg, ws1, Atom Upper, Atom Upper, Atom Upper]"

definition uob_TX_START_RE :: regex where
  "uob_TX_START_RE =
     seqs [Bol, Group ''post'' day_mon, ws1, Group ''trans'' day_mon, ws1,
           Group ''rest'' (plus (Atom Dot)), Eol]"

definition amount_num :: regex where
  "amount_num =
     seqs [dg, opt (Seq dg (opt dg)), Star (seqs [Atom (Lit (CHR '','')), dg, dg, dg]),
           Atom (Lit (CHR ''.'')), dg, dg]"

definition uob_AMT_AT_END_RE :: regex where
  "uob_AMT_AT_END_RE =
     seqs [Group ''num'' amount_num, ws0,
           opt (Group ''suffix'' (Alt (lit_i ''CR'') (lit_i ''DR''))), Eol]"

definition uob_AMT_ONLY_RE :: regex where
  "uob_AMT_ONLY_RE =
     seqs [Bol, Group ''num'' amount_num, ws0,
           opt (Group ''suffix'' (Alt (lit_i ''CR'') (lit_i ''DR''))), Eol]"

definition or_empty :: "string option \<Rightarrow> string" where
  "or_empty x = (case x of None \<Rightarrow> [] | Some s \<Rightarrow> s)"

definition normalize_amount :: "string option \<Rightarrow> string option \<Rightarrow> string" where
  "normalize_amount num suffix =
     (let num' = strip (remove_char (CHR '','') (or_empty num));
          suf = str_upper (strip (or_empty suffix))
      in if suf = ''CR'' then ''('' @ num' @ '')''
         else if suf = [] then num' else num' @ suf)"

definition uob_is_redundant_line :: "string \<Rightarrow> bool" where
  "uob_is_redundant_line line =
     (let s = strip line;
          s_upper = str_upper s;
          s_compact = str_upper (remove_ws s)
      in if s = [] then True
         else if is_some (re_search uob_START_MARKER_RE s) \<or> is_some (re_search uob_END_MARKER_RE s)
           then True
         else if s \<in> {uob_start_marker, uob_end_marker, ''Date Date SGD''} then True
         else if startswith s_upper ''PREVIOUS BALANCE'' then True
         else if str_in ''PLEASE'' s_upper \<and> str_in ''BOUND'' s_upper \<and> str_in ''DUTY'' s_upper
           then True
         else if str_in ''PLEASENOTETHATYOUAREBOUNDBYADUTY'' s_compact then True
         else if str_in ''UNAUTHORISEDDEBITS'' s_compact \<or> str_in ''CONCLUSIVELYBINDING'' s_compact
           then True
         else if str_in ''CLAIMAGAINSTTHEBANK'' s_compact then True
         else if str_in ''UNITED OVERSEAS BANK LIMITED'' s_upper then True
         else if str_in ''UOB PLAZA'' s_upper \<or> str_in ''WWW.UOB.COM.SG'' s_upper then True
         else if is_some (re_match (seqs [Bol, lit ''PAGE'', ws1, plus dg, ws1, lit ''OF'', ws1, plus dg])
                            s_upper)
           then True
         else if startswith s_upper ''UOB ONE CARD'' then True
         else if str_in ''(CONTINUED)'' s_upper then True
         else if is_some (re_search
                   (seqs [WordB, dg, dg, dg, dg, lit ''-'', dg, dg, dg, dg, lit ''-'',
                          dg, dg, dg, dg, lit ''-'', dg, dg, dg, dg, WordB]) s)
           then True
         else if is_some (re_fullmatch (seqs [lit ''DATE'', ws1, lit ''DATE'', ws1, lit ''SGD'']) s_upper)
           then True
         else if ''DATEDATESGD'' = s_compact then True
         else False)"

text \<open>\<open>clean_lines\<close>: the stripped lines of the section, without the redundant ones.\<close>

fun uob_clean_loop :: "string list \<Rightarrow> string list" where
  "uob_clean_loop [] = []"
| "uob_clean_loop (ln # raw) =
     (if uob_is_redundant_line ln then uob_clean_loop raw
      else if is_some (re_search uob_START_MARKER_RE ln) then uob_clean_loop raw
      else if is_some (re_search uob_END_MARKER_RE ln) then []
      else ln # uob_clean_loop raw)"

definition uob_clean_lines :: "string \<Rightarrow> string list" where
  "uob_clean_lines section = uob_clean_loop (map strip (splitlines section))"

text \<open>
  A parsed transaction (the dictionary \<open>parse_tx_from_buffer\<close> returns) and a row of
  the output (the same with the \<open>Year\<close> that \<open>flush\<close> adds).
\<close>

record tx =
  tx_date :: string
  tx_desc :: string
  tx_amount :: string

record row = tx +
  row_year :: string

text \<open>
  \<open>parse_tx_from_buffer\<close>.  Step 1 looks for an amount at the end of the first line;
  step 2 runs over the continuation lines with the amount found so far and the parts of
  the description.
\<close>

definition uob_first_line :: "string \<Rightarrow> string option \<times> string list" where
  "uob_first_line first =
     (case re_search uob_AMT_AT_END_RE first of
        Some m_amt_end \<Rightarrow>
          (let num = group m_amt_end ''num'';
               suf = group m_amt_end ''suffix'';
               before_amt = strip (take (mstart m_amt_end) first)
           in if before_amt \<noteq> [] then (Some (normalize_amount num suf), [before_amt])
              else (None, [first]))
      | None \<Rightarrow> (None, [first]))"

fun uob_cont_loop :: "string list \<Rightarrow> string option \<times> string list \<Rightarrow> string option \<times> string list" where
  "uob_cont_loop [] st = st"
| "uob_cont_loop (cont # conts) (amount, desc_parts) =
     (let s = strip cont
      in if s = [] \<or> uob_is_redundant_line s then uob_cont_loop conts (amount, desc_parts)
         else (case amount of
                 None \<Rightarrow>
                   (case re_match uob_AMT_ONLY_RE s of
                      Some m_only \<Rightarrow>
                        uob_cont_loop conts
                          (Some (normalize_amount (group m_only ''num'') (group m_only ''suffix'')),
                           desc_parts)
                    | None \<Rightarrow> uob_cont_loop conts (amount, desc_parts @ [s]))
               | Some a \<Rightarrow> uob_cont_loop conts (amount, desc_parts @ [s])))"

text \<open>
  Names for the cases of the loop: a continuation line that the loop skips (empty or
  redundant), the lines it keeps, each stripped, and a line that is an amount alone.
\<close>

definition uob_is_skipped :: "string \<Rightarrow> bool" where
  "uob_is_skipped cont = (strip cont = [] \<or> uob_is_redundant_line (strip cont))"

definition uob_kept :: "string list \<Rightarrow> string list" where
  "uob_kept conts = map strip (filter (\<lambda>c. \<not> uob_is_skipped c) conts)"

definition is_amount_only :: "string \<Rightarrow> bool" where
  "is_amount_only cont = is_some (re_match uob_AMT_ONLY_RE (strip cont))"

definition parse_tx_from_buffer :: "string \<Rightarrow> string \<Rightarrow> string list \<Rightarrow> tx option" where
  "parse_tx_from_buffer post_date trans_date buffer_lines =
     (case buffer_lines of
        [] \<Rightarrow> None
      | b # conts \<Rightarrow>
          (case uob_cont_loop conts (uob_first_line (strip b)) of
             (None, desc_parts) \<Rightarrow> None
           | (Some amount, desc_parts) \<Rightarrow>
               Some \<lparr>tx_date = strip trans_date,
                     tx_desc = strip (collapse_ws (join '' '' desc_parts)),
                     tx_amount = amount\<rparr>))"

text \<open>
  \<open>extract_rows_from_pdf\<close>: the state of its loop is the rows emitted so far and the
  pending record (\<open>current_post\<close>, \<open>current_trans\<close>, \<open>buffer_lines\<close>).
\<close>

type_synonym stitch_state = "row list \<times> string option \<times> string option \<times> string list"

definition truthy :: "string option \<Rightarrow> bool" where
  "truthy x = (case x of None \<Rightarrow> False | Some s \<Rightarrow> s \<noteq> [])"

definition flush :: "string \<Rightarrow> stitch_state \<Rightarrow> stitch_state" where
  "flush year_value st =
     (case st of (rows, current_post, current_trans, buffer_lines) \<Rightarrow>
        ((if truthy current_post \<and> truthy current_trans \<and> buffer_lines \<noteq> []
          then (case parse_tx_from_buffer (or_empty current_post) (or_empty current_trans) buffer_lines of
                  Some rec \<Rightarrow>
                    rows @ [\<lparr>tx_date = tx_date rec, tx_desc = tx_desc rec, tx_amount = tx_amount rec,
                              row_year = year_value\<rparr>]
                | None \<Rightarrow> rows)
          else rows),
         None, None, []))"

fun stitch_loop :: "string \<Rightarrow> string list \<Rightarrow> stitch_state \<Rightarrow> stitch_state" where
  "stitch_loop year_value [] st = st"
| "stitch_loop year_value (l # lines) st =
     (let ln = strip l
      in case re_match uob_TX_START_RE ln of
           Some m \<Rightarrow>
             (case flush year_value st of (rows, _, _, _) \<Rightarrow>
                stitch_loop year_value lines
                  (rows, group m ''post'', group m ''trans'', [strip (or_empty (group m ''rest''))]))
         | None \<Rightarrow>
             (case st of (rows, current_post, current_trans, buffer_lines) \<Rightarrow>
                if current_post \<noteq> None
                then stitch_loop year_value lines (rows, current_post, current_trans, buffer_lines @ [ln])
                else stitch_loop year_value lines st))"

definition uob_stitch :: "string \<Rightarrow> string list \<Rightarrow> row list" where
  "uob_stitch year_value lines =
     fst (flush year_value (stitch_loop year_value lines ([], None, None, [])))"

definition uob_extract_rows_from_pdf :: "string \<Rightarrow> string \<Rightarrow> row list" where
  "uob_extract_rows_from_pdf year_value all_text =
     (case uob_extract_section_text all_text of
        None \<Rightarrow> []
      | Some section \<Rightarrow>
          if section = [] then [] else uob_stitch year_value (uob_clean_lines section))"

text \<open>The batch: the rows of every document, in the order of the documents.\<close>

definition uob_run_batch :: "(string \<times> string) list \<Rightarrow> row list" where
  "uob_run_batch docs = concat (map (\<lambda>(year_value, all_text). uob_extract_rows_from_pdf year_value all_text) docs)"

section \<open>American Express statements\<close>

text \<open>
  The script \<open>03-Automate-AMEX-Credit-Statements.py\<close>.
  \<open>start_marker_re\<close>: \<^verbatim>\<open>Details\s+Foreign\s+Spending\s+Amount\s*S\$\<close>, ignoring case.
  \<open>DATE_DDMMYY_DOTS_RE\<close>: \<^verbatim>\<open>^\d{2}\.\d{2}\.\d{2}\b\<close>.
  \<open>TX_RE\<close>: \<^verbatim>\<open>^(?P<date>\d{2}\.\d{2}\.\d{2})\s+(?P<desc>.+?)\s+(?P<amt>[0-9,]+\.\d{2})(?P<cr>CR)?\s*$\<close>.
\<close>

definition amex_start_marker_re :: regex where
  "amex_start_marker_re =
     seqs [lit_i ''Details'', ws1, lit_i ''Foreign'', ws1, lit_i ''Spending'', ws1,
           lit_i ''Amount'', ws0, lit_i ''S$'']"

definition amex_end_marker :: string where
  "amex_end_marker = ''Total of New Transactions''"

definition dd_dd_dd :: regex where
  "dd_dd_dd = seqs [dg, dg, Atom (Lit (CHR ''.'')), dg, dg, Atom (Lit (CHR ''.'')), dg, dg]"

definition amex_DATE_DDMMYY_DOTS_RE :: regex where
  "amex_DATE_DDMMYY_DOTS_RE = seqs [Bol, dd_dd_dd, WordB]"

definition money :: regex where
  "money = seqs [plus (Atom (OneOf ''0123456789,'')), Atom (Lit (CHR ''.'')), dg, dg]"

definition amex_TX_RE :: regex where
  "amex_TX_RE =
     seqs [Bol, Group ''date'' dd_dd_dd, ws1, Group ''desc'' (lazy_plus (Atom Dot)), ws1,
           Group ''amt'' money, opt (Group ''cr'' (lit ''CR'')), ws0, Eol]"

text \<open>
  \<open>datetime.strptime(date_str, "%d.%m.%y")\<close>.  The library turns the format into the
  pattern \<^verbatim>\<open>(?P<d>3[0-1]|[1-2]\d|0[1-9]|[1-9]| [1-9])\.(?P<m>1[0-2]|0[1-9]|[1-9])\.(?P<y>\d\d)\<close>,
  matches it at the start of the string and raises \<open>ValueError\<close> when it does not match,
  when text remains after the match, or when the day does not exist in the month.  Years
  00 to 68 are 2000 to 2068, years 69 to 99 are 1969 to 1999.
\<close>

definition strptime_re :: regex where
  "strptime_re =
     seqs [Group ''d''
             (Alt (Seq (Atom (Lit (CHR ''3''))) (Atom (OneOf ''01'')))
             (Alt (Seq (Atom (OneOf ''12'')) dg)
             (Alt (Seq (Atom (Lit (CHR ''0''))) (Atom (OneOf ''123456789'')))
             (Alt (Atom (OneOf ''123456789''))
                  (Seq (Atom (Lit (CHR '' ''))) (Atom (OneOf ''123456789''))))))),
           Atom (Lit (CHR ''.'')),
           Group ''m''
             (Alt (Seq (Atom (Lit (CHR ''1''))) (Atom (OneOf ''012'')))
             (Alt (Seq (Atom (Lit (CHR ''0''))) (Atom (OneOf ''123456789'')))
                  (Atom (OneOf ''123456789'')))),
           Atom (Lit (CHR ''.'')),
           Group ''y'' (Seq dg dg)]"

definition is_leap :: "nat \<Rightarrow> bool" where
  "is_leap y = (y mod 4 = 0 \<and> (y mod 400 = 0 \<or> y mod 100 \<noteq> 0))"

definition days_in_month :: "nat \<Rightarrow> nat \<Rightarrow> nat" where
  "days_in_month y m =
     (if m = 2 then (if is_leap y then 29 else 28)
      else if m \<in> {4, 6, 9, 11} then 30 else 31)"

definition month_names :: "string list" where
  "month_names = [''Jan'', ''Feb'', ''Mar'', ''Apr'', ''May'', ''Jun'',
                  ''Jul'', ''Aug'', ''Sep'', ''Oct'', ''Nov'', ''Dec'']"

text \<open>The date as (year, month, day), or the \<open>ValueError\<close>.\<close>

definition strptime_dmy :: "string \<Rightarrow> py_error + (nat \<times> nat \<times> nat)" where
  "strptime_dmy date_str =
     (case re_match strptime_re date_str of
        None \<Rightarrow> Inl ValueError
      | Some found \<Rightarrow>
          if mend found \<noteq> length date_str then Inl ValueError
          else
            (let d = nat_of_digits (strip (or_empty (group found ''d'')));
                 m = nat_of_digits (or_empty (group found ''m''));
                 yy = nat_of_digits (or_empty (group found ''y''));
                 y = (if yy \<le> 68 then 2000 + yy else 1900 + yy)
             in if 1 \<le> d \<and> d \<le> days_in_month y m then Inr (y, m, d) else Inl ValueError))"

text \<open>
  \<open>format_date_and_year\<close>: \<open>("%d %b" in capitals, "%Y")\<close>, with the month names of the
  C locale.
\<close>

definition format_date_and_year :: "string \<Rightarrow> py_error + (string \<times> string)" where
  "format_date_and_year date_str =
     (case strptime_dmy date_str of
        Inl e \<Rightarrow> Inl e
      | Inr (y, m, d) \<Rightarrow>
          Inr (str_upper ([digit_char (d div 10), digit_char d] @ '' '' @ month_names ! (m - 1)),
               [digit_char (y div 1000), digit_char (y div 100), digit_char (y div 10), digit_char y]))"

definition format_amount_for_excel :: "string option \<Rightarrow> bool \<Rightarrow> string" where
  "format_amount_for_excel amount_str is_credit =
     (let amt = strip (remove_char (CHR '','') (or_empty amount_str))
      in if is_credit then ''('' @ amt @ '')'' else amt)"

definition amex_redundant_substrings :: "string list" where
  "amex_redundant_substrings =
     [''American Express International'', ''UEN'', ''Statement of Account'',
      ''Prepared for Membership Number'', ''Membership Number'', ''PAYMENT ADVICE'',
      ''Please return'', ''Minimum Payment'', ''Due by'', ''Enter amount enclosed'',
      ''Please make crossed cheque payable'', ''AMERICAN EXPRESS'', ''Please do not write'',
      ''The Rewards Card'', ''Page '', ''Important Information'', ''Foreign Currency Charges'',
      ''Online Services'', ''Payment Method'', ''Privacy:'', ''Limited Liability'',
      ''Credit Card Interest Rate Policy'', ''log on to americanexpress.com.sg'', ''amex.co/'',
      ''reply envelope'']"

definition amex_is_redundant_line :: "string \<Rightarrow> bool" where
  "amex_is_redundant_line line =
     (let s = strip line
      in if s = [] then True
         else if s = amex_end_marker \<or> is_some (re_search amex_start_marker_re s) then True
         else (let s_lower = str_lower s
               in list_ex (\<lambda>sub. str_in (str_lower sub) s_lower) amex_redundant_substrings))"

text \<open>
  \<open>parse_transaction_line\<close>: a date that \<open>format_date_and_year\<close> rejects is kept as it
  stands, with an empty year.
\<close>

definition amex_parse_transaction_line :: "string \<Rightarrow> row option" where
  "amex_parse_transaction_line line =
     (case re_match amex_TX_RE (strip line) of
        None \<Rightarrow> None
      | Some m \<Rightarrow>
          (let raw_date = or_empty (group m ''date'');
               (tx_date, year_yyyy) =
                  (case format_date_and_year raw_date of
                     Inr (dm, yyyy) \<Rightarrow> (dm, yyyy)
                   | Inl e \<Rightarrow> (raw_date, []));
               amt = format_amount_for_excel (group m ''amt'') (is_some (group m ''cr''))
           in Some \<lparr>tx_date = tx_date, tx_desc = strip (or_empty (group m ''desc'')),
                    tx_amount = amt, row_year = year_yyyy\<rparr>))"

text \<open>
  \<open>extract_marker_segments\<close>: the pattern is
  \<^verbatim>\<open>(?:START)(.*?)(?=(?:START)|END)\<close> with \<open>DOTALL\<close> and \<open>IGNORECASE\<close>, where
  \<open>START\<close> is the pattern of \<open>start_marker_re\<close> and \<open>END\<close> the escaped \<open>end_marker\<close>;
  the segments are the texts of group 1 of its matches.
\<close>

definition amex_terminator :: regex where
  "amex_terminator = Alt amex_start_marker_re (lit_i amex_end_marker)"

definition amex_seg_re :: regex where
  "amex_seg_re = seqs [amex_start_marker_re, Group ''1'' (LazyStar (Atom DotAll)), Ahead amex_terminator]"

definition extract_marker_segments :: "string \<Rightarrow> string list" where
  "extract_marker_segments all_text =
     map (\<lambda>m. or_empty (group m ''1''))
         (re_finditer amex_seg_re (replace_char (CHR 0xA0) (CHR '' '') all_text))"

text \<open>The clean lines of the segments.\<close>

definition amex_clean_lines :: "string list \<Rightarrow> string list" where
  "amex_clean_lines segments =
     filter (\<lambda>s. s \<noteq> [] \<and> \<not> amex_is_redundant_line s)
            (map strip (concat (map (\<lambda>seg. map strip (splitlines seg)) segments)))"

text \<open>
  The rule for a line that is \<open>CR\<close> alone: the amount of the last row emitted is put in
  parentheses unless it already is.
\<close>

definition standalone_cr :: "row list \<Rightarrow> row list" where
  "standalone_cr rows =
     (if rows = [] then rows
      else
        (let prev = strip (tx_amount (last rows))
         in if \<not> (startswith prev ''('' \<and> endswith prev '')'')
            then rows[length rows - 1 :=
                   (last rows)\<lparr>tx_amount := format_amount_for_excel (Some prev) True\<rparr>]
            else rows))"

text \<open>The test of the rule: the text starts with \<open>(\<close> and ends with \<open>)\<close>.\<close>

definition in_parentheses :: "string \<Rightarrow> bool" where
  "in_parentheses s = (startswith s ''('' \<and> endswith s '')'')"

text \<open>The loop over the clean lines (\<open>i\<close> of the script is the head of the list).\<close>

fun amex_loop :: "string list \<Rightarrow> row list \<Rightarrow> row list" where
  "amex_loop [] rows = rows"
| "amex_loop (l # ls) rows =
     (let line = strip l
      in if line = ''CR'' then amex_loop ls (standalone_cr rows)
         else if \<not> is_some (re_match amex_DATE_DDMMYY_DOTS_RE line) then amex_loop ls rows
         else (case amex_parse_transaction_line line of
                 None \<Rightarrow> amex_loop ls rows
               | Some rec \<Rightarrow>
                   (case ls of
                      [] \<Rightarrow> amex_loop [] (rows @ [rec])
                    | nxt # ls' \<Rightarrow>
                        if strip nxt = ''CR''
                        then amex_loop ls'
                               (rows @ [rec\<lparr>tx_amount := format_amount_for_excel (Some (tx_amount rec)) True\<rparr>])
                        else amex_loop (nxt # ls') (rows @ [rec]))))"

definition amex_rows_of_segments :: "string list \<Rightarrow> row list" where
  "amex_rows_of_segments segments =
     (if segments = [] then [] else amex_loop (amex_clean_lines segments) [])"

definition amex_extract_rows_from_pdf :: "string \<Rightarrow> row list" where
  "amex_extract_rows_from_pdf all_text = amex_rows_of_segments (extract_marker_segments all_text)"

definition amex_run_batch :: "string list \<Rightarrow> row list" where
  "amex_run_batch docs = concat (map amex_extract_rows_from_pdf docs)"

section \<open>OCBC statements: the transaction date\<close>

text \<open>The script \<open>Automate-OCBC-Credit-Statements.py\<close>: \<open>MONTH_ABBR\<close> and \<open>format_tx_date\<close>.\<close>

definition MONTH_ABBR :: "(string \<times> string) list" where
  "MONTH_ABBR =
     [(''01'', ''Jan''), (''02'', ''Feb''), (''03'', ''Mar''), (''04'', ''Apr''),
      (''05'', ''May''), (''06'', ''Jun''), (''07'', ''Jul''), (''08'', ''Aug''),
      (''09'', ''Sep''), (''10'', ''Oct''), (''11'', ''Nov''), (''12'', ''Dec'')]"

text \<open>\<open>d.get(k, default)\<close>.\<close>

definition dict_get :: "(string \<times> string) list \<Rightarrow> string \<Rightarrow> string \<Rightarrow> string" where
  "dict_get d k dflt = (case map_of d k of None \<Rightarrow> dflt | Some v \<Rightarrow> v)"

text \<open>\<open>s.split(sep)\<close> for a separator of one character.\<close>

fun split_acc :: "char \<Rightarrow> string \<Rightarrow> string \<Rightarrow> string list" where
  "split_acc sep acc [] = [rev acc]"
| "split_acc sep acc (c # cs) =
     (if c = sep then rev acc # split_acc sep [] cs else split_acc sep (c # acc) cs)"

definition split_on :: "char \<Rightarrow> string \<Rightarrow> string list" where
  "split_on sep s = split_acc sep [] s"

text \<open>\<open>s.zfill(2)\<close>: zeros on the left up to two characters, after a leading sign.\<close>

definition zfill2 :: "string \<Rightarrow> string" where
  "zfill2 s =
     (if 2 \<le> length s then s
      else if s = ''+'' \<or> s = ''-'' then s @ ''0''
      else replicate (2 - length s) (CHR ''0'') @ s)"

definition format_tx_date :: "string \<Rightarrow> string" where
  "format_tx_date date_str =
     (let s = strip date_str
      in case split_on (CHR ''/'') s of
           dd # mm # _ \<Rightarrow> zfill2 dd @ '' '' @ dict_get MONTH_ABBR (zfill2 mm) (zfill2 mm)
         | _ \<Rightarrow> s)"

section \<open>SRS statements: one transaction line\<close>

text \<open>
  The script \<open>AutomateParsingSRS.py\<close>.  The pattern of \<open>parse_transaction_line\<close> is
  \<^verbatim>\<open>^(\d{2}[A-Z]{3})\s+(CR DIVIDENDS FOR\s+.+?)\s+([0-9,]+\.\d{2})\s+([0-9,]+\.\d{2})\s*$\<close>.
\<close>

definition srs_line_re :: regex where
  "srs_line_re =
     seqs [Bol, Group ''1'' (seqs [dg, dg, Atom Upper, Atom Upper, Atom Upper]), ws1,
           Group ''2'' (seqs [lit ''CR DIVIDENDS FOR'', ws1, lazy_plus (Atom Dot)]), ws1,
           Group ''3'' money, ws1, Group ''4'' money, ws0, Eol]"

definition srs_month_map :: "(string \<times> string) list" where
  "srs_month_map =
     [(''JAN'', ''Jan''), (''FEB'', ''Feb''), (''MAR'', ''Mar''), (''APR'', ''Apr''),
      (''MAY'', ''May''), (''JUN'', ''Jun''), (''JUL'', ''Jul''), (''AUG'', ''Aug''),
      (''SEP'', ''Sep''), (''OCT'', ''Oct''), (''NOV'', ''Nov''), (''DEC'', ''Dec'')]"

text \<open>The date of a row (lines 54 to 62): \<open>13MAY\<close> becomes \<open>13-May-24\<close>, the year is fixed.\<close>

definition srs_format_date :: "string \<Rightarrow> string" where
  "srs_format_date date_raw =
     (let day = take 2 date_raw;
          mon = dict_get srs_month_map (take 3 (drop 2 date_raw)) (take 3 (drop 2 date_raw))
      in day @ ''-'' @ mon @ ''-24'')"

record srs_row =
  srs_date :: string
  srs_description :: string
  srs_credit :: string

definition srs_parse_transaction_line :: "string \<Rightarrow> srs_row option" where
  "srs_parse_transaction_line line =
     (case re_match srs_line_re line of
        None \<Rightarrow> None
      | Some m \<Rightarrow>
          Some \<lparr>srs_date = srs_format_date (or_empty (group m ''1'')),
                srs_description = or_empty (group m ''2''),
                srs_credit = or_empty (group m ''3'')\<rparr>)"

section \<open>Foreign stock statements: the section\<close>

text \<open>
  The script \<open>AutomateParsingForeignStocks.py\<close> reads one document and cuts the text
  between two literal markers (lines 119 to 128); a missing start marker raises
  \<open>ValueError\<close>, a missing end marker keeps the rest of the document.
\<close>

definition fs_start_marker :: string where
  "fs_start_marker = ''S t a t e m e n t O f A c c o u n t''"

definition fs_end_marker :: string where
  "fs_end_marker = ''C u s t o d y S t a t e m e n t''"

definition fs_section :: "string \<Rightarrow> py_error + string" where
  "fs_section all_text =
     (case str_find all_text fs_start_marker of
        None \<Rightarrow> Inl ValueError
      | Some i \<Rightarrow>
          (let section = drop (i + length fs_start_marker) all_text
           in case str_find section fs_end_marker of
                Some j \<Rightarrow> Inr (take j section)
              | None \<Rightarrow> Inr section))"

section \<open>Segments as the specification describes them\<close>

text \<open>
  The specification describes the segments of the repeated mode by the occurrences of
  the start marker: one segment for each occurrence, from the end of that occurrence up
  to the next start marker or end marker.  \<open>spec_segments\<close> follows these words; it is
  compared with \<open>extract_marker_segments\<close> below.
\<close>

definition spec_segment_from :: "string \<Rightarrow> string" where
  "spec_segment_from rest =
     (case re_search amex_terminator rest of
        None \<Rightarrow> []
      | Some t \<Rightarrow> take (mstart t) rest)"

definition spec_segments :: "string \<Rightarrow> string list" where
  "spec_segments text =
     map (\<lambda>m. spec_segment_from (drop (mend m) text)) (re_finditer amex_start_marker_re text)"

text \<open>A clean line that the AMEX loop turns into a row.\<close>

definition amex_is_tx_line :: "string \<Rightarrow> bool" where
  "amex_is_tx_line l =
     (strip l \<noteq> ''CR'' \<and> is_some (re_match amex_DATE_DDMMYY_DOTS_RE (strip l))
      \<and> is_some (amex_parse_transaction_line (strip l)))"

section \<open>Patterns without groups and anchors\<close>

text \<open>
  The marker patterns have neither groups nor anchors nor look-ahead, so how they match
  depends on the text to be read only.  \<open>rests\<close> is the matcher for such patterns: the
  texts left after each way to match, in the order of \<open>ms\<close>.  \<open>first_hit\<close> is the
  number of characters before the first position at which such a pattern matches.
\<close>

fun plain :: "regex \<Rightarrow> bool" where
  "plain Eps = True"
| "plain (Atom a) = True"
| "plain (Seq r1 r2) = (plain r1 \<and> plain r2)"
| "plain (Alt r1 r2) = (plain r1 \<and> plain r2)"
| "plain (Star r) = plain r"
| "plain (LazyStar r) = plain r"
| "plain (Group n r) = False"
| "plain Bol = False"
| "plain Eol = False"
| "plain WordB = False"
| "plain (Ahead r) = False"

fun rests :: "regex \<Rightarrow> string \<Rightarrow> string list" where
  "rests Eps s = [s]"
| "rests (Atom a) [] = []"
| "rests (Atom a) (c # cs) = (if cmatch a c then [cs] else [])"
| "rests (Seq r1 r2) s = concat (map (rests r2) (rests r1 s))"
| "rests (Alt r1 r2) s = rests r1 s @ rests r2 s"
| "rests (Star r) s =
     concat (map (\<lambda>s'. if length s' < length s then rests (Star r) s' else []) (rests r s)) @ [s]"
| "rests (LazyStar r) s =
     s # concat (map (\<lambda>s'. if length s' < length s then rests (LazyStar r) s' else []) (rests r s))"
| "rests (Group n r) s = []"
| "rests Bol s = []"
| "rests Eol s = []"
| "rests WordB s = []"
| "rests (Ahead r) s = []"

definition hits :: "regex \<Rightarrow> string \<Rightarrow> bool" where
  "hits r s = (rests r s \<noteq> [])"

fun first_hit :: "regex \<Rightarrow> string \<Rightarrow> nat option" where
  "first_hit r [] = (if hits r [] then Some 0 else None)"
| "first_hit r (c # cs) = (if hits r (c # cs) then Some 0 else map_option Suc (first_hit r cs))"

text \<open>The texts that follow the matches of \<open>finditer\<close>.\<close>

definition match_ends :: "regex \<Rightarrow> nat \<Rightarrow> char option \<Rightarrow> string \<Rightarrow> string list" where
  "match_ends r i p s = map (\<lambda>m. drop (mend m - i) s) (finditer_from r i p s)"

text \<open>The segment texts of \<open>finditer\<close> with the segment pattern.\<close>

definition segment_texts :: "nat \<Rightarrow> char option \<Rightarrow> string \<Rightarrow> string list" where
  "segment_texts i p s = map (\<lambda>m. or_empty (group m ''1'')) (finditer_from amex_seg_re i p s)"

section \<open>Example documents\<close>

text \<open>
  A UOB document whose table header has a blank inside the word \<open>Post\<close>, as a PDF
  extraction that breaks words produces it.
\<close>

definition split_marker_doc :: string where
  "split_marker_doc =
     ''Po st Trans Description of Transaction Transaction Amount'' @ [CHR 0x0A] @
     ''07 JUN 07 JUN CR INTEREST 16.84 CR'' @ [CHR 0x0A] @
     ''SUB TOTAL''"

text \<open>
  An AMEX document of two pages: the table header is repeated on the second page, the
  end marker follows the second table.  The same document without its end marker.
\<close>

definition two_page_doc :: string where
  "two_page_doc =
     ''Details Foreign Spending Amount S$'' @ [CHR 0x0A] @
     ''01.01.21 SHOP 1.00'' @ [CHR 0x0A] @
     ''Details Foreign Spending Amount S$'' @ [CHR 0x0A] @
     ''02.01.21 CAFE 2.50'' @ [CHR 0x0A] @
     ''CR'' @ [CHR 0x0A] @
     ''Total of New Transactions''"

definition unterminated_doc :: string where
  "unterminated_doc =
     ''Details Foreign Spending Amount S$'' @ [CHR 0x0A] @
     ''01.01.21 SHOP 1.00'' @ [CHR 0x0A]"

text \<open>
  An AMEX document with one transaction whose amount carries the credit marker on the
  transaction line and again on the next line.
\<close>

definition double_credit_doc :: string where
  "double_credit_doc =
     ''Details Foreign Spending Amount S$'' @ [CHR 0x0A] @
     ''02.01.21 CAFE 2.50CR'' @ [CHR 0x0A] @
     ''CR'' @ [CHR 0x0A] @
     ''Total of New Transactions''"

section \<open>Evaluating the character classes\<close>

text \<open>
  The character classes in terms of the bits of the code; these equations are the ones
  used when a function is evaluated on a concrete text.
\<close>

lemma isspace_code [code]:
  "isspace (Char b0 b1 b2 b3 b4 b5 b6 b7) =
     (\<not> b6 \<and>
      (if b7 then \<not> b4 \<and> \<not> b3 \<and> \<not> b1 \<and> (if b5 then \<not> b2 \<and> \<not> b0 else b2 \<and> b0)
       else if b5 then \<not> b4 \<and> \<not> b3 \<and> \<not> b2 \<and> \<not> b1 \<and> \<not> b0
       else if b4 then b3 \<and> b2
       else b3 \<and> (if b2 then \<not> b1 else b1 \<or> b0)))"
  by (cases b0; cases b1; cases b2; cases b3; cases b4; cases b5; cases b6; cases b7;
      simp add: isspace_def)

lemma isdecimal_code [code]:
  "isdecimal (Char b0 b1 b2 b3 b4 b5 b6 b7) =
     (\<not> b7 \<and> \<not> b6 \<and> b5 \<and> b4 \<and> (if b3 then \<not> b2 \<and> \<not> b1 else True))"
  by (auto simp: isdecimal_def)

lemma in_A_Z_code [code]:
  "in_A_Z (Char b0 b1 b2 b3 b4 b5 b6 b7) =
     (\<not> b7 \<and> b6 \<and> \<not> b5 \<and> (b0 \<or> b1 \<or> b2 \<or> b3 \<or> b4)
      \<and> (if b4 \<and> b3 then \<not> b2 \<and> (if b1 then \<not> b0 else True) else True))"
  by (cases b0; cases b1; cases b2; cases b3; cases b4; cases b5; cases b6; cases b7;
      simp add: in_A_Z_def)

lemma in_a_z_code [code]:
  "in_a_z (Char b0 b1 b2 b3 b4 b5 b6 b7) =
     (\<not> b7 \<and> b6 \<and> b5 \<and> (b0 \<or> b1 \<or> b2 \<or> b3 \<or> b4)
      \<and> (if b4 \<and> b3 then \<not> b2 \<and> (if b1 then \<not> b0 else True) else True))"
  by (cases b0; cases b1; cases b2; cases b3; cases b4; cases b5; cases b6; cases b7;
      simp add: in_a_z_def)

lemma latin_capital_code [code]:
  "latin_capital (Char b0 b1 b2 b3 b4 b5 b6 b7) =
     (b7 \<and> b6 \<and> \<not> b5 \<and> \<not> (b4 \<and> b2 \<and> b1 \<and> b0))"
  by (cases b0; cases b1; cases b2; cases b3; cases b4; cases b5; cases b6; cases b7;
      simp add: latin_capital_def)

lemma latin_small_code [code]:
  "latin_small (Char b0 b1 b2 b3 b4 b5 b6 b7) =
     (b7 \<and> b6 \<and> b5 \<and> \<not> (b4 \<and> b2 \<and> b1 \<and> b0))"
  by (cases b0; cases b1; cases b2; cases b3; cases b4; cases b5; cases b6; cases b7;
      simp add: latin_small_def)

lemma isword_code [code]:
  "isword (Char b0 b1 b2 b3 b4 b5 b6 b7) =
     (if b7
      then (if b6 then \<not> (b4 \<and> \<not> b3 \<and> b2 \<and> b1 \<and> b0)
            else b5 \<and> (if b4 then (if b3 then (if b2 then \<not> (b1 \<and> b0) else b1 \<noteq> b0)
                                   else (if b2 then \<not> b1 \<and> b0 else b1))
                        else b3 \<and> \<not> b2 \<and> b1 \<and> \<not> b0))
      else isdecimal (Char b0 b1 b2 b3 b4 b5 b6 b7) \<or> in_A_Z (Char b0 b1 b2 b3 b4 b5 b6 b7)
           \<or> in_a_z (Char b0 b1 b2 b3 b4 b5 b6 b7)
           \<or> (b6 \<and> \<not> b5 \<and> b4 \<and> b3 \<and> b2 \<and> b1 \<and> b0))"
  by (cases b0; cases b1; cases b2; cases b3; cases b4; cases b5; cases b6; cases b7;
      simp add: isword_def isdecimal_def in_A_Z_def in_a_z_def latin_capital_def latin_small_def)

lemma case_mapping_alphabet:
  "str_lower ''ABCDEFGHIJKLMNOPQRSTUVWXYZ'' = ''abcdefghijklmnopqrstuvwxyz''
   \<and> str_upper ''abcdefghijklmnopqrstuvwxyz'' = ''ABCDEFGHIJKLMNOPQRSTUVWXYZ''"
  by code_simp

section \<open>Worked examples of the normalisation rules\<close>

text \<open>
  Claim C6.  Amount normalisation: \<open>1,234.56\<close> marked as a credit becomes \<open>(1234.56)\<close>,
  the thousands separator removed and the number in parentheses; \<open>7.00\<close> without a
  credit mark stays \<open>7.00\<close>.  This holds for \<open>normalize_amount\<close> of the UOB script (the
  credit mark is the suffix \<open>CR\<close>) and for \<open>format_amount_for_excel\<close> of the AMEX script
  (the credit mark is the flag \<open>is_credit\<close>).
\<close>

theorem amount_normalization_examples:
  "normalize_amount (Some ''1,234.56'') (Some ''CR'') = ''(1234.56)''
   \<and> normalize_amount (Some ''7.00'') None = ''7.00''
   \<and> format_amount_for_excel (Some ''1,234.56'') True = ''(1234.56)''
   \<and> format_amount_for_excel (Some ''7.00'') False = ''7.00''"
  by code_simp

text \<open>
  Claim C7.  Date normalisation: the SRS parser turns \<open>13MAY\<close> into \<open>13-May-24\<close> (the
  year 24 is fixed in the script), also on a whole transaction line; the AMEX
  \<open>format_date_and_year\<close> turns \<open>25.10.20\<close> into the day and month \<open>25 OCT\<close> with the
  year \<open>2020\<close>; the OCBC \<open>format_tx_date\<close> turns \<open>02/04\<close> into \<open>02 Apr\<close>.
\<close>

theorem date_normalization_examples:
  "srs_format_date ''13MAY'' = ''13-May-24''
   \<and> map_option srs_date (srs_parse_transaction_line ''13MAY CR DIVIDENDS FOR 92FC 13.75 19,067.06'')
       = Some ''13-May-24''
   \<and> format_date_and_year ''25.10.20'' = Inr (''25 OCT'', ''2020'')
   \<and> format_tx_date ''02/04'' = ''02 Apr''"
  by code_simp

text \<open>
  Claim C4.  Stitching the two lines \<open>07 JUN 07 JUN CR INTEREST\<close> and \<open>16.84 CR\<close> gives
  exactly one row; its amount is \<open>(16.84)\<close> and its description is \<open>CR INTEREST\<close>.
\<close>

theorem stitch_interest_example:
  "uob_stitch year_value [''07 JUN 07 JUN CR INTEREST'', ''16.84 CR'']
     = [\<lparr>tx_date = ''07 JUN'', tx_desc = ''CR INTEREST'', tx_amount = ''(16.84)'',
          row_year = year_value\<rparr>]"
  by code_simp

section \<open>The UOB record stitcher\<close>

subsection \<open>Lines of a cleaned section\<close>

text \<open>
  The lines that \<open>clean_lines\<close> hands to the stitcher are stripped and not redundant, so
  \<open>parse_tx_from_buffer\<close> skips none of the lines of a stitched record.
\<close>

lemma strip_idem: "strip (strip s) = strip s"
proof -
  define t where "t = dropWhile isspace s"
  define u where "u = dropWhile isspace (rev t)"
  have su: "strip s = rev u"
    by (simp add: strip_def t_def u_def)
  have "dropWhile isspace (rev u) = rev u"
  proof (cases "u = []")
    case True
    then show ?thesis by simp
  next
    case False
    then have tne: "t \<noteq> []"
      by (auto simp: u_def)
    have "rev t = takeWhile isspace (rev t) @ u"
      by (simp add: u_def)
    then have "last (rev t) = last u"
      using False by (metis last_appendR)
    then have "last u = hd t"
      using tne by (simp add: last_rev)
    moreover have "\<not> isspace (hd t)"
      using tne unfolding t_def by (rule hd_dropWhile)
    ultimately have "\<not> isspace (hd (rev u))"
      using False by (simp add: hd_rev)
    then show ?thesis
      using False by (cases "rev u") simp_all
  qed
  moreover have "dropWhile isspace u = u"
    by (simp add: u_def)
  ultimately show ?thesis
    by (simp add: su) (simp add: strip_def)
qed

lemma clean_loop_kept:
  "ln \<in> set (uob_clean_loop raw) \<Longrightarrow> ln \<in> set raw \<and> \<not> uob_is_redundant_line ln"
  by (induction raw) (auto split: if_splits)

lemma not_redundant_nonempty: "\<not> uob_is_redundant_line ln \<Longrightarrow> strip ln \<noteq> []"
  by (auto simp: uob_is_redundant_line_def Let_def)

lemma cleaned_lines_not_skipped:
  "list_all (\<lambda>ln. \<not> uob_is_skipped (strip ln)) (uob_clean_lines section)"
proof -
  have "\<not> uob_is_skipped (strip ln)" if "ln \<in> set (uob_clean_lines section)" for ln
  proof -
    from that have "ln \<in> set (map strip (splitlines section))" and nr: "\<not> uob_is_redundant_line ln"
      using clean_loop_kept [of ln "map strip (splitlines section)"]
      by (simp_all add: uob_clean_lines_def)
    then have "strip ln = ln"
      by (auto simp: strip_idem)
    with nr not_redundant_nonempty [OF nr] show ?thesis
      by (simp add: uob_is_skipped_def)
  qed
  then show ?thesis
    by (simp add: list_all_iff)
qed

subsection \<open>The loop over the continuation lines\<close>

lemma cont_loop_amount_set:
  "uob_cont_loop conts (Some a, d) = (Some a, d @ uob_kept conts)"
  by (induction conts arbitrary: d) (simp_all add: uob_kept_def uob_is_skipped_def Let_def)

lemma cont_loop_no_amount_prefix:
  "list_all (\<lambda>c. uob_is_skipped c \<or> \<not> is_amount_only c) pre \<Longrightarrow>
   uob_cont_loop (pre @ rest) (None, d) = uob_cont_loop rest (None, d @ uob_kept pre)"
proof (induction pre arbitrary: d)
  case Nil
  then show ?case by (simp add: uob_kept_def)
next
  case (Cons c pre)
  then have rest: "list_all (\<lambda>c. uob_is_skipped c \<or> \<not> is_amount_only c) pre"
    and here: "uob_is_skipped c \<or> \<not> is_amount_only c"
    by simp_all
  show ?case
  proof (cases "uob_is_skipped c")
    case True
    then have "uob_cont_loop (c # pre @ rest) (None, d) = uob_cont_loop (pre @ rest) (None, d)"
      and "uob_kept (c # pre) = uob_kept pre"
      by (auto simp: uob_kept_def uob_is_skipped_def Let_def)
    then show ?thesis
      using Cons.IH [OF rest, of d] by simp
  next
    case False
    with here have "re_match uob_AMT_ONLY_RE (strip c) = None"
      by (simp add: is_amount_only_def is_some_def split: option.splits)
    with False have "uob_cont_loop (c # pre @ rest) (None, d)
                       = uob_cont_loop (pre @ rest) (None, d @ [strip c])"
      and "uob_kept (c # pre) = strip c # uob_kept pre"
      by (auto simp: uob_kept_def uob_is_skipped_def Let_def)
    then show ?thesis
      using Cons.IH [OF rest, of "d @ [strip c]"] by simp
  qed
qed

lemma cont_loop_amount_line:
  "\<not> uob_is_skipped c \<Longrightarrow> re_match uob_AMT_ONLY_RE (strip c) = Some m \<Longrightarrow>
   uob_cont_loop (c # post) (None, d)
     = (Some (normalize_amount (group m ''num'') (group m ''suffix'')), d @ uob_kept post)"
  by (auto simp: uob_is_skipped_def Let_def cont_loop_amount_set)

lemma cont_loop_no_amount:
  "list_all (\<lambda>c. uob_is_skipped c \<or> \<not> is_amount_only c) conts \<Longrightarrow>
   uob_cont_loop conts (None, d) = (None, d @ uob_kept conts)"
  using cont_loop_no_amount_prefix [of conts "[]" d] by simp

text \<open>
  Claim C3.  In a record whose first fragment carries no amount, the first continuation
  line that is an amount alone (and that the loop does not skip as empty or redundant)
  becomes the amount of the record: it is not part of the description, and every line
  after it that the loop keeps, whether it looks like an amount or not, is appended to
  the description.  In a record whose first fragment already carries the amount, every
  kept continuation line is appended to the description.  (In a stitched record no line
  is skipped, by \<open>cleaned_lines_not_skipped\<close>.)
\<close>

theorem first_amount_line_wins:
  "(uob_first_line (strip b) = (None, d0)
      \<and> list_all (\<lambda>c. uob_is_skipped c \<or> \<not> is_amount_only c) pre
      \<and> \<not> uob_is_skipped c
      \<and> re_match uob_AMT_ONLY_RE (strip c) = Some m
    \<longrightarrow> parse_tx_from_buffer post_date trans_date (b # pre @ c # post)
          = Some \<lparr>tx_date = strip trans_date,
                  tx_desc = strip (collapse_ws (join '' '' (d0 @ uob_kept pre @ uob_kept post))),
                  tx_amount = normalize_amount (group m ''num'') (group m ''suffix'')\<rparr>)
   \<and> (uob_first_line (strip b') = (Some a, d1)
    \<longrightarrow> parse_tx_from_buffer post_date' trans_date' (b' # conts)
          = Some \<lparr>tx_date = strip trans_date',
                  tx_desc = strip (collapse_ws (join '' '' (d1 @ uob_kept conts))),
                  tx_amount = a\<rparr>)"
  by (simp add: parse_tx_from_buffer_def cont_loop_no_amount_prefix cont_loop_amount_line
        cont_loop_amount_set del: uob_cont_loop.simps)

theorem first_amount_line_wins_witness:
  "uob_first_line (strip ''CR INTEREST'') = (None, [''CR INTEREST''])
   \<and> \<not> is_amount_only ''REF 123''
   \<and> is_amount_only ''16.84 CR'' \<and> is_amount_only ''7.00''
   \<and> parse_tx_from_buffer ''07 JUN'' ''07 JUN'' [''CR INTEREST'', ''REF 123'', ''16.84 CR'', ''7.00'']
       = Some \<lparr>tx_date = ''07 JUN'', tx_desc = ''CR INTEREST REF 123 7.00'', tx_amount = ''(16.84)''\<rparr>
   \<and> uob_first_line (strip ''NTUC FAIRPRICE 12.30'') = (Some ''12.30'', [''NTUC FAIRPRICE''])
   \<and> parse_tx_from_buffer ''08 JUN'' ''08 JUN'' [''NTUC FAIRPRICE 12.30'', ''7.00'']
       = Some \<lparr>tx_date = ''08 JUN'', tx_desc = ''NTUC FAIRPRICE 7.00'', tx_amount = ''12.30''\<rparr>"
proof -
  let ?m = "\<lparr>mstart = 0, mend = 8, mgroups = [(''suffix'', ''CR''), (''num'', ''16.84'')]\<rparr>"
  have h1: "uob_first_line (strip ''CR INTEREST'') = (None, [''CR INTEREST''])"
    by code_simp
  have h2: "list_all (\<lambda>c. uob_is_skipped c \<or> \<not> is_amount_only c) [''REF 123'']"
    by code_simp
  have h3: "\<not> uob_is_skipped ''16.84 CR''"
    by code_simp
  have h4: "re_match uob_AMT_ONLY_RE (strip ''16.84 CR'') = Some ?m"
    by code_simp
  have h5: "uob_first_line (strip ''NTUC FAIRPRICE 12.30'') = (Some ''12.30'', [''NTUC FAIRPRICE''])"
    by code_simp
  have e1: "strip (collapse_ws (join '' '' ([''CR INTEREST''] @ uob_kept [''REF 123''] @ uob_kept [''7.00''])))
              = ''CR INTEREST REF 123 7.00''"
    by code_simp
  have e2: "normalize_amount (group ?m ''num'') (group ?m ''suffix'') = ''(16.84)''"
    by code_simp
  have e3: "strip (collapse_ws (join '' '' ([''NTUC FAIRPRICE''] @ uob_kept [''7.00''])))
              = ''NTUC FAIRPRICE 7.00''"
    by code_simp
  have e4: "strip ''07 JUN'' = ''07 JUN''" "strip ''08 JUN'' = ''08 JUN''"
    by code_simp+
  have a1: "\<not> is_amount_only ''REF 123''" "is_amount_only ''16.84 CR''" "is_amount_only ''7.00''"
    by code_simp+
  have w: "parse_tx_from_buffer ''07 JUN'' ''07 JUN'' (''CR INTEREST'' # [''REF 123''] @ ''16.84 CR'' # [''7.00''])
       = Some \<lparr>tx_date = ''07 JUN'', tx_desc = ''CR INTEREST REF 123 7.00'', tx_amount = ''(16.84)''\<rparr>
     \<and> parse_tx_from_buffer ''08 JUN'' ''08 JUN'' (''NTUC FAIRPRICE 12.30'' # [''7.00''])
       = Some \<lparr>tx_date = ''08 JUN'', tx_desc = ''NTUC FAIRPRICE 7.00'', tx_amount = ''12.30''\<rparr>"
    using first_amount_line_wins [of "''CR INTEREST''" "[''CR INTEREST'']" "[''REF 123'']" "''16.84 CR''" ?m
        "''07 JUN''" "''07 JUN''" "[''7.00'']" "''NTUC FAIRPRICE 12.30''" "''12.30''" "[''NTUC FAIRPRICE'']"
        "''08 JUN''" "''08 JUN''" "[''7.00'']"]
      h1 h2 h3 h4 h5
    by (simp only: e1 e2 e3 e4 simp_thms)
  from w h1 h5 a1 show ?thesis by simp
qed

subsection \<open>Records without an amount\<close>

lemma flush_idle: "flush y (rows, None, None, []) = (rows, None, None, [])"
  by (simp add: flush_def truthy_def)

text \<open>
  Claim C8.  When the first fragment of a record carries no amount and no kept
  continuation line is an amount alone, \<open>parse_tx_from_buffer\<close> returns no row, \<open>flush\<close>
  leaves the rows as they are and clears the pending record, and a following
  record-start line is processed exactly as if no record had been pending.
\<close>

theorem no_amount_record_is_discarded:
  "fst (uob_first_line (strip b)) = None
     \<and> list_all (\<lambda>c. uob_is_skipped c \<or> \<not> is_amount_only c) conts
   \<longrightarrow> parse_tx_from_buffer p t (b # conts) = None
       \<and> flush y (rows, Some p, Some t, b # conts) = (rows, None, None, [])
       \<and> (is_some (re_match uob_TX_START_RE (strip l))
            \<longrightarrow> stitch_loop y (l # ls) (rows, Some p, Some t, b # conts)
                = stitch_loop y (l # ls) (rows, None, None, []))"
proof (intro impI, elim conjE)
  assume first: "fst (uob_first_line (strip b)) = None"
    and conts: "list_all (\<lambda>c. uob_is_skipped c \<or> \<not> is_amount_only c) conts"
  obtain d0 where d0: "uob_first_line (strip b) = (None, d0)"
    using first by (cases "uob_first_line (strip b)") simp
  have parse: "parse_tx_from_buffer p t (b # conts) = None"
    by (simp add: parse_tx_from_buffer_def d0 cont_loop_no_amount [OF conts])
  have fl: "flush y (rows, Some p, Some t, b # conts) = (rows, None, None, [])"
    by (simp add: flush_def parse or_empty_def)
  have "stitch_loop y (l # ls) (rows, Some p, Some t, b # conts)
          = stitch_loop y (l # ls) (rows, None, None, [])"
    if "is_some (re_match uob_TX_START_RE (strip l))"
    using that by (simp add: is_some_def fl flush_idle split: option.splits)
  with parse fl
  show "parse_tx_from_buffer p t (b # conts) = None
       \<and> flush y (rows, Some p, Some t, b # conts) = (rows, None, None, [])
       \<and> (is_some (re_match uob_TX_START_RE (strip l))
            \<longrightarrow> stitch_loop y (l # ls) (rows, Some p, Some t, b # conts)
                = stitch_loop y (l # ls) (rows, None, None, []))"
    by blast
qed

theorem no_amount_record_is_discarded_witness:
  "fst (uob_first_line (strip ''STRAY TEXT'')) = None
   \<and> list_all (\<lambda>c. uob_is_skipped c \<or> \<not> is_amount_only c) [''REF 5521'']
   \<and> is_some (re_match uob_TX_START_RE (strip ''08 JUN 08 JUN NTUC 12.30''))
   \<and> parse_tx_from_buffer ''07 JUN'' ''07 JUN'' [''STRAY TEXT'', ''REF 5521''] = None
   \<and> flush ''2024'' ([], Some ''07 JUN'', Some ''07 JUN'', [''STRAY TEXT'', ''REF 5521''])
       = ([], None, None, [])
   \<and> stitch_loop ''2024'' [''08 JUN 08 JUN NTUC 12.30'']
         ([], Some ''07 JUN'', Some ''07 JUN'', [''STRAY TEXT'', ''REF 5521''])
       = stitch_loop ''2024'' [''08 JUN 08 JUN NTUC 12.30''] ([], None, None, [])"
proof -
  have h1: "fst (uob_first_line (strip ''STRAY TEXT'')) = None"
    by code_simp
  have h2: "list_all (\<lambda>c. uob_is_skipped c \<or> \<not> is_amount_only c) [''REF 5521'']"
    by code_simp
  have h3: "is_some (re_match uob_TX_START_RE (strip ''08 JUN 08 JUN NTUC 12.30''))"
    by code_simp
  from no_amount_record_is_discarded [of "''STRAY TEXT''" "[''REF 5521'']" "''07 JUN''" "''07 JUN''"
      "''2024''" "[]" "''08 JUN 08 JUN NTUC 12.30''" "[]"] h1 h2 h3
  show ?thesis by blast
qed

section \<open>The AMEX rules for a line that is CR alone\<close>

lemma strip_parenthesised: "strip (CHR ''('' # x @ '')'') = CHR ''('' # x @ '')''"
  by (simp add: strip_def isspace_def)

lemma in_parentheses_wrap: "in_parentheses (CHR ''('' # x @ '')'')"
  by (simp add: in_parentheses_def startswith_def endswith_def)

lemma standalone_cr_length: "length (standalone_cr rows) = length rows"
  by (simp add: standalone_cr_def Let_def)

lemma standalone_cr_idem: "standalone_cr (standalone_cr rows) = standalone_cr rows"
proof (cases "rows = [] \<or> in_parentheses (strip (tx_amount (last rows)))")
  case True
  then show ?thesis
    by (auto simp: standalone_cr_def Let_def in_parentheses_def)
next
  case False
  then have ne: "rows \<noteq> []" and np: "\<not> in_parentheses (strip (tx_amount (last rows)))"
    by simp_all
  define r where "r = (last rows)\<lparr>tx_amount := format_amount_for_excel (Some (strip (tx_amount (last rows)))) True\<rparr>"
  have step: "standalone_cr rows = rows[length rows - 1 := r]"
    using ne np by (simp add: standalone_cr_def Let_def in_parentheses_def r_def)
  have "in_parentheses (strip (tx_amount r))"
    by (simp add: r_def format_amount_for_excel_def Let_def strip_parenthesised in_parentheses_wrap)
  moreover have "last (rows[length rows - 1 := r]) = r" "rows[length rows - 1 := r] \<noteq> []"
    using ne by (simp_all add: last_list_update)
  ultimately have "standalone_cr (rows[length rows - 1 := r]) = rows[length rows - 1 := r]"
    by (simp add: standalone_cr_def Let_def in_parentheses_def)
  with step show ?thesis by simp
qed

text \<open>
  The amounts of the rows that the loop emits are stripped and free of thousands
  separators, so for an emitted row the rule puts the amount itself in parentheses.
\<close>

lemma remove_char_absent: "c \<notin> set s \<Longrightarrow> remove_char c s = s"
  by (induction s) (auto simp: remove_char_def)

lemma strip_subset: "set (strip s) \<subseteq> set s"
  by (auto simp: strip_def dest!: set_dropWhileD)

lemma format_amount_normal:
  "strip (format_amount_for_excel a cr) = format_amount_for_excel a cr
   \<and> remove_char (CHR '','') (format_amount_for_excel a cr) = format_amount_for_excel a cr"
proof -
  define amt where "amt = strip (remove_char (CHR '','') (or_empty a))"
  have "CHR '','' \<notin> set (remove_char (CHR '','') (or_empty a))"
    by (simp add: remove_char_def)
  with strip_subset have nc: "CHR '','' \<notin> set amt"
    unfolding amt_def by blast
  have st: "strip amt = amt"
    by (simp add: amt_def strip_idem)
  have rc: "remove_char (CHR '','') amt = amt"
    by (rule remove_char_absent [OF nc])
  have rp: "remove_char (CHR '','') (CHR ''('' # amt @ '')'') = CHR ''('' # amt @ '')''"
    using rc by (simp add: remove_char_def)
  have "format_amount_for_excel a cr = (if cr then CHR ''('' # amt @ '')'' else amt)"
    by (simp add: format_amount_for_excel_def Let_def amt_def)
  then show ?thesis
    using st rc rp by (simp add: strip_parenthesised)
qed

lemma parsed_amount_normal:
  "amex_parse_transaction_line line = Some rec \<Longrightarrow>
   strip (tx_amount rec) = tx_amount rec \<and> remove_char (CHR '','') (tx_amount rec) = tx_amount rec"
  using format_amount_normal
  by (auto simp: amex_parse_transaction_line_def Let_def split: option.splits sum.splits prod.splits)

lemma standalone_cr_normal:
  "list_all (\<lambda>r. strip (tx_amount r) = tx_amount r \<and> remove_char (CHR '','') (tx_amount r) = tx_amount r) rows
   \<Longrightarrow> list_all (\<lambda>r. strip (tx_amount r) = tx_amount r \<and> remove_char (CHR '','') (tx_amount r) = tx_amount r)
         (standalone_cr rows)"
  using format_amount_normal
  by (auto simp: standalone_cr_def Let_def list_all_iff dest!: set_update_subset_insert [THEN subsetD])

lemma emitted_amounts_normal:
  "list_all (\<lambda>r. strip (tx_amount r) = tx_amount r \<and> remove_char (CHR '','') (tx_amount r) = tx_amount r) rows
   \<Longrightarrow> list_all (\<lambda>r. strip (tx_amount r) = tx_amount r \<and> remove_char (CHR '','') (tx_amount r) = tx_amount r)
         (amex_loop ls rows)"
proof (induction ls rows rule: amex_loop.induct)
  case (1 rows)
  then show ?case by simp
next
  case (2 l ls rows)
  show ?case
  proof (cases "strip l = ''CR''")
    case True
    with "2.IH"(1) [OF refl True standalone_cr_normal [OF "2.prems"]] show ?thesis
      by (simp add: Let_def)
  next
    case ncr: False
    show ?thesis
    proof (cases "is_some (re_match amex_DATE_DDMMYY_DOTS_RE (strip l))")
      case False
      with ncr "2.IH"(2) [OF refl ncr _ "2.prems"] show ?thesis
        by (simp add: Let_def)
    next
      case dt: True
      show ?thesis
      proof (cases "amex_parse_transaction_line (strip l)")
        case None
        with ncr dt "2.IH"(3) [OF refl ncr _ None "2.prems"] show ?thesis
          by (simp add: Let_def)
      next
        case (Some rec)
        note nrm = parsed_amount_normal [OF Some]
        show ?thesis
        proof (cases ls)
          case Nil
          with ncr dt Some nrm "2.prems" show ?thesis
            by (simp add: Let_def)
        next
          case (Cons nxt ls')
          show ?thesis
          proof (cases "strip nxt = ''CR''")
            case True
            have "list_all (\<lambda>r. strip (tx_amount r) = tx_amount r \<and> remove_char (CHR '','') (tx_amount r) = tx_amount r)
                    (rows @ [rec\<lparr>tx_amount := format_amount_for_excel (Some (tx_amount rec)) True\<rparr>])"
              using "2.prems" format_amount_normal by simp
            from "2.IH"(5) [OF refl ncr _ Some Cons True this] ncr dt Some Cons True
            show ?thesis by (simp add: Let_def)
          next
            case False
            have "list_all (\<lambda>r. strip (tx_amount r) = tx_amount r \<and> remove_char (CHR '','') (tx_amount r) = tx_amount r)
                    (rows @ [rec])"
              using "2.prems" nrm by simp
            from "2.IH"(6) [OF refl ncr _ Some Cons False this] ncr dt Some Cons False
            show ?thesis by (simp add: Let_def)
          qed
        qed
      qed
    qed
  qed
qed

text \<open>
  The branch for a line that is \<open>CR\<close> alone (lines 169 to 175) tests the amount of the
  last row for parentheses, so it is idempotent and never adds a row: when the amount is
  already in parentheses the rows stay as they are; otherwise the amount of the last
  row, stripped and without thousands separators (for a row that the loop emitted: the
  amount as it stands), is put in parentheses, and a second application changes nothing;
  and the loop goes on with the next line and the same number of rows.
\<close>

lemma standalone_cr_guarded:
  "standalone_cr (standalone_cr rows) = standalone_cr rows
   \<and> length (standalone_cr rows) = length rows
   \<and> (in_parentheses (strip (tx_amount (last rows))) \<longrightarrow> standalone_cr rows = rows)
   \<and> (rows \<noteq> [] \<and> \<not> in_parentheses (strip (tx_amount (last rows)))
        \<longrightarrow> standalone_cr rows
            = butlast rows @
              [(last rows)\<lparr>tx_amount :=
                 ''('' @ strip (remove_char (CHR '','') (strip (tx_amount (last rows)))) @ '')''\<rparr>])
   \<and> (rows \<noteq> [] \<and> strip (tx_amount (last rows)) = tx_amount (last rows)
        \<and> remove_char (CHR '','') (tx_amount (last rows)) = tx_amount (last rows)
        \<and> \<not> in_parentheses (tx_amount (last rows))
        \<longrightarrow> standalone_cr rows
            = butlast rows @ [(last rows)\<lparr>tx_amount := ''('' @ tx_amount (last rows) @ '')''\<rparr>])
   \<and> (strip l = ''CR'' \<longrightarrow> amex_loop (l # ls) rows = amex_loop ls (standalone_cr rows))"
proof -
  have a: "in_parentheses (strip (tx_amount (last rows))) \<longrightarrow> standalone_cr rows = rows"
    by (simp add: standalone_cr_def Let_def in_parentheses_def)
  have b: "rows \<noteq> [] \<and> \<not> in_parentheses (strip (tx_amount (last rows)))
        \<longrightarrow> standalone_cr rows
            = butlast rows @
              [(last rows)\<lparr>tx_amount :=
                 ''('' @ strip (remove_char (CHR '','') (strip (tx_amount (last rows)))) @ '')''\<rparr>]"
  proof (intro impI, elim conjE)
    assume ne: "rows \<noteq> []" and np: "\<not> in_parentheses (strip (tx_amount (last rows)))"
    have "rows[length rows - 1 := r] = butlast rows @ [r]" for r
      using ne by (induction rows rule: rev_induct) simp_all
    then show "standalone_cr rows
            = butlast rows @
              [(last rows)\<lparr>tx_amount :=
                 ''('' @ strip (remove_char (CHR '','') (strip (tx_amount (last rows)))) @ '')''\<rparr>]"
      using ne np
      by (simp add: standalone_cr_def Let_def in_parentheses_def format_amount_for_excel_def or_empty_def)
  qed
  from b have b': "rows \<noteq> [] \<and> strip (tx_amount (last rows)) = tx_amount (last rows)
        \<and> remove_char (CHR '','') (tx_amount (last rows)) = tx_amount (last rows)
        \<and> \<not> in_parentheses (tx_amount (last rows))
        \<longrightarrow> standalone_cr rows
            = butlast rows @ [(last rows)\<lparr>tx_amount := ''('' @ tx_amount (last rows) @ '')''\<rparr>]"
    by simp
  have c: "strip l = ''CR'' \<longrightarrow> amex_loop (l # ls) rows = amex_loop ls (standalone_cr rows)"
    by (simp add: Let_def)
  from standalone_cr_idem standalone_cr_length a b b' c show ?thesis by blast
qed

text \<open>
  The branch that looks ahead (lines 186 to 190) has no such test: when the line after a
  transaction line is \<open>CR\<close>, the amount of the record is put in parentheses whatever it
  looks like.
\<close>

lemma lookahead_attach_unguarded:
  assumes dt: "is_some (re_match amex_DATE_DDMMYY_DOTS_RE (strip l))"
    and rec: "amex_parse_transaction_line (strip l) = Some rec"
    and cr: "strip nxt = ''CR''"
  shows "amex_loop (l # nxt # ls) rows
           = amex_loop ls (rows @ [rec\<lparr>tx_amount := ''('' @ tx_amount rec @ '')''\<rparr>])"
proof -
  have "\<not> is_some (re_match amex_DATE_DDMMYY_DOTS_RE ''CR'')"
    by code_simp
  with dt have ncr: "strip l \<noteq> ''CR''"
    by auto
  from parsed_amount_normal [OF rec]
  have "format_amount_for_excel (Some (tx_amount rec)) True = ''('' @ tx_amount rec @ '')''"
    by (simp add: format_amount_for_excel_def or_empty_def Let_def)
  with ncr dt rec cr show ?thesis
    by (simp add: Let_def)
qed

text \<open>
  Claim C10 fails in the code.  The line \<open>02.01.21 CAFE 2.50CR\<close> is parsed to a record
  with the amount \<open>(2.50)\<close>, already in parentheses.  When the next line is \<open>CR\<close>, the
  look-ahead puts the amount in parentheses a second time and the row is emitted with
  \<open>((2.50))\<close>, also from a whole document.  When another line stands between the two,
  the \<open>CR\<close> line is handled by the branch for a line that is \<open>CR\<close> alone, which leaves
  \<open>(2.50)\<close> as it is.
\<close>

theorem lookahead_cr_wraps_twice:
  "amex_parse_transaction_line ''02.01.21 CAFE 2.50CR''
     = Some \<lparr>tx_date = ''02 JAN'', tx_desc = ''CAFE'', tx_amount = ''(2.50)'', row_year = ''2021''\<rparr>
   \<and> amex_loop [''02.01.21 CAFE 2.50CR'', ''CR''] []
       = [\<lparr>tx_date = ''02 JAN'', tx_desc = ''CAFE'', tx_amount = ''((2.50))'', row_year = ''2021''\<rparr>]
   \<and> amex_extract_rows_from_pdf double_credit_doc
       = [\<lparr>tx_date = ''02 JAN'', tx_desc = ''CAFE'', tx_amount = ''((2.50))'', row_year = ''2021''\<rparr>]
   \<and> amex_loop [''02.01.21 CAFE 2.50CR'', ''Ref 1'', ''CR''] []
       = [\<lparr>tx_date = ''02 JAN'', tx_desc = ''CAFE'', tx_amount = ''(2.50)'', row_year = ''2021''\<rparr>]
   \<and> standalone_cr [\<lparr>tx_date = ''02 JAN'', tx_desc = ''CAFE'', tx_amount = ''(2.50)'', row_year = ''2021''\<rparr>]
       = [\<lparr>tx_date = ''02 JAN'', tx_desc = ''CAFE'', tx_amount = ''(2.50)'', row_year = ''2021''\<rparr>]"
  by code_simp

section \<open>Documents without a start marker\<close>

lemma search_none_seq:
  "search_from r i p s = None \<Longrightarrow> finditer_from (Seq r x) i p s = []"
  by (induction s arbitrary: i p) (auto split: list.splits)

lemma segments_none:
  "re_search amex_start_marker_re (replace_char (CHR 0xA0) (CHR '' '') text) = None
   \<Longrightarrow> extract_marker_segments text = []"
  by (simp add: extract_marker_segments_def re_finditer_def re_search_def amex_seg_re_def seqs_def
        search_none_seq)

text \<open>
  Claim C1, as amended.  In the batch scripts a document in which the start marker
  pattern finds nothing yields no section (UOB) or no segment (AMEX) and no rows, and
  the rows of the batch are those of the other documents; nothing is raised, the result
  is a plain list.  The script for foreign stocks, which reads one document, raises
  \<open>ValueError\<close> when its literal start marker is not in the text.
\<close>

theorem missing_start_marker_skips_document:
  "(re_search uob_START_MARKER_RE text = None
      \<longrightarrow> uob_extract_section_text text = None
          \<and> uob_extract_rows_from_pdf year_value text = []
          \<and> uob_run_batch (before @ (year_value, text) # after)
              = uob_run_batch before @ uob_run_batch after)
   \<and> (re_search amex_start_marker_re (replace_char (CHR 0xA0) (CHR '' '') text') = None
      \<longrightarrow> extract_marker_segments text' = []
          \<and> amex_extract_rows_from_pdf text' = []
          \<and> amex_run_batch (before' @ text' # after')
              = amex_run_batch before' @ amex_run_batch after')
   \<and> (\<not> str_in fs_start_marker text'' \<longrightarrow> fs_section text'' = Inl ValueError)"
  by (simp add: uob_extract_section_text_def uob_extract_rows_from_pdf_def uob_run_batch_def
        segments_none amex_extract_rows_from_pdf_def amex_rows_of_segments_def amex_run_batch_def
        str_in_def fs_section_def split: option.splits)

theorem missing_start_marker_skips_document_witness:
  "re_search uob_START_MARKER_RE ''Statement Of Account'' = None
   \<and> uob_extract_rows_from_pdf ''2024'' ''Statement Of Account'' = []
   \<and> uob_run_batch [(''2023'', ''a''), (''2024'', ''Statement Of Account''), (''2025'', ''b'')]
       = uob_run_batch [(''2023'', ''a'')] @ uob_run_batch [(''2025'', ''b'')]
   \<and> re_search amex_start_marker_re (replace_char (CHR 0xA0) (CHR '' '') ''Statement Of Account'') = None
   \<and> amex_extract_rows_from_pdf ''Statement Of Account'' = []
   \<and> amex_run_batch [''a'', ''Statement Of Account'', ''b''] = amex_run_batch [''a''] @ amex_run_batch [''b'']
   \<and> \<not> str_in fs_start_marker ''Statement Of Account''
   \<and> fs_section ''Statement Of Account'' = Inl ValueError"
proof -
  have h1: "re_search uob_START_MARKER_RE ''Statement Of Account'' = None"
    by code_simp
  have h2: "re_search amex_start_marker_re (replace_char (CHR 0xA0) (CHR '' '') ''Statement Of Account'') = None"
    by code_simp
  have h3: "\<not> str_in fs_start_marker ''Statement Of Account''"
    by code_simp
  from missing_start_marker_skips_document [of "''Statement Of Account''" "''2024''" "[(''2023'', ''a'')]"
      "[(''2025'', ''b'')]" "''Statement Of Account''" "[''a'']" "[''b'']" "''Statement Of Account''"]
    h1 h2 h3
  show ?thesis by simp
qed

text \<open>
  Claim C1 as stated fails: on a text without its start marker the script for foreign
  stocks raises \<open>ValueError\<close> instead of producing zero rows, also with the line feed
  that the script puts after the text of every page.
\<close>

theorem missing_start_marker_raises_counterexample:
  "\<not> str_in fs_start_marker ''Statement Of Account''
   \<and> fs_section ''Statement Of Account'' = Inl ValueError
   \<and> \<not> str_in fs_start_marker (''Statement Of Account'' @ [CHR 0x0A])
   \<and> fs_section (''Statement Of Account'' @ [CHR 0x0A]) = Inl ValueError"
  by code_simp

section \<open>Dates that are not calendar dates\<close>

text \<open>
  Claim C5, as amended.  No record is dropped for its date.  The AMEX parser returns no
  row exactly when \<open>TX_RE\<close> does not match the line; when the date token is not a
  calendar date the row is emitted with the token as it stands and an empty year.  The
  SRS parser emits the row with the month token as it stands when the token is not a
  month abbreviation.
\<close>

theorem unparsable_date_is_kept_raw:
  "(amex_parse_transaction_line line = None) = (re_match amex_TX_RE (strip line) = None)
   \<and> (re_match amex_TX_RE (strip line) = Some m
        \<and> format_date_and_year (or_empty (group m ''date'')) = Inl e
      \<longrightarrow> amex_parse_transaction_line line
            = Some \<lparr>tx_date = or_empty (group m ''date''),
                    tx_desc = strip (or_empty (group m ''desc'')),
                    tx_amount = format_amount_for_excel (group m ''amt'') (is_some (group m ''cr'')),
                    row_year = []\<rparr>)
   \<and> (re_match srs_line_re line' = Some m'
        \<and> map_of srs_month_map (take 3 (drop 2 (or_empty (group m' ''1'')))) = None
      \<longrightarrow> map_option srs_date (srs_parse_transaction_line line')
            = Some (take 2 (or_empty (group m' ''1'')) @ ''-''
                    @ take 3 (drop 2 (or_empty (group m' ''1''))) @ ''-24''))"
  by (auto simp: amex_parse_transaction_line_def srs_parse_transaction_line_def srs_format_date_def
        dict_get_def Let_def split: option.splits sum.splits prod.splits)

theorem unparsable_date_is_kept_raw_witness:
  "re_match amex_TX_RE (strip ''31.02.21 XTRA AMK HUB SINGAPORE 25.35'')
     = Some \<lparr>mstart = 0, mend = 37,
             mgroups = [(''amt'', ''25.35''), (''desc'', ''XTRA AMK HUB SINGAPORE''),
                        (''date'', ''31.02.21'')]\<rparr>
   \<and> format_date_and_year ''31.02.21'' = Inl ValueError
   \<and> amex_parse_transaction_line ''31.02.21 XTRA AMK HUB SINGAPORE 25.35''
       = Some \<lparr>tx_date = ''31.02.21'', tx_desc = ''XTRA AMK HUB SINGAPORE'', tx_amount = ''25.35'',
               row_year = []\<rparr>
   \<and> re_match srs_line_re ''13XYZ CR DIVIDENDS FOR 92FC 13.75 19,067.06''
       = Some \<lparr>mstart = 0, mend = 43,
               mgroups = [(''4'', ''19,067.06''), (''3'', ''13.75''),
                          (''2'', ''CR DIVIDENDS FOR 92FC''), (''1'', ''13XYZ'')]\<rparr>
   \<and> map_option srs_date (srs_parse_transaction_line ''13XYZ CR DIVIDENDS FOR 92FC 13.75 19,067.06'')
       = Some ''13-XYZ-24''"
proof -
  let ?m = "\<lparr>mstart = 0, mend = 37,
             mgroups = [(''amt'', ''25.35''), (''desc'', ''XTRA AMK HUB SINGAPORE''),
                        (''date'', ''31.02.21'')]\<rparr>"
  let ?m' = "\<lparr>mstart = 0, mend = 43,
               mgroups = [(''4'', ''19,067.06''), (''3'', ''13.75''),
                          (''2'', ''CR DIVIDENDS FOR 92FC''), (''1'', ''13XYZ'')]\<rparr>"
  have h1: "re_match amex_TX_RE (strip ''31.02.21 XTRA AMK HUB SINGAPORE 25.35'') = Some ?m"
    by code_simp
  have h2: "format_date_and_year (or_empty (group ?m ''date'')) = Inl ValueError"
    by code_simp
  have h3: "re_match srs_line_re ''13XYZ CR DIVIDENDS FOR 92FC 13.75 19,067.06'' = Some ?m'"
    by code_simp
  have h4: "map_of srs_month_map (take 3 (drop 2 (or_empty (group ?m' ''1'')))) = None"
    by code_simp
  have e1: "or_empty (group ?m ''date'') = ''31.02.21''"
    "strip (or_empty (group ?m ''desc'')) = ''XTRA AMK HUB SINGAPORE''"
    "format_amount_for_excel (group ?m ''amt'') (is_some (group ?m ''cr'')) = ''25.35''"
    "take 2 (or_empty (group ?m' ''1'')) @ ''-'' @ take 3 (drop 2 (or_empty (group ?m' ''1''))) @ ''-24''
       = ''13-XYZ-24''"
    by code_simp+
  from unparsable_date_is_kept_raw [of "''31.02.21 XTRA AMK HUB SINGAPORE 25.35''" ?m ValueError
      "''13XYZ CR DIVIDENDS FOR 92FC 13.75 19,067.06''" ?m'] h1 h2 h3 h4
  have "amex_parse_transaction_line ''31.02.21 XTRA AMK HUB SINGAPORE 25.35''
       = Some \<lparr>tx_date = ''31.02.21'', tx_desc = ''XTRA AMK HUB SINGAPORE'', tx_amount = ''25.35'',
               row_year = []\<rparr>
     \<and> map_option srs_date (srs_parse_transaction_line ''13XYZ CR DIVIDENDS FOR 92FC 13.75 19,067.06'')
       = Some ''13-XYZ-24''"
    by (simp only: e1 simp_thms)
  with h1 h2 h3 show ?thesis
    by (simp only: e1 simp_thms)
qed

text \<open>
  Claim C5 as stated fails: the 31st of February is no date, and the AMEX loop emits
  the row with the raw token and an empty year; \<open>XYZ\<close> is no month, and the SRS parser
  emits the row with the date \<open>13-XYZ-24\<close>.
\<close>

theorem unparsable_date_counterexample:
  "format_date_and_year ''31.02.21'' = Inl ValueError
   \<and> amex_loop [''31.02.21 XTRA AMK HUB SINGAPORE 25.35''] []
       = [\<lparr>tx_date = ''31.02.21'', tx_desc = ''XTRA AMK HUB SINGAPORE'', tx_amount = ''25.35'',
            row_year = []\<rparr>]
   \<and> srs_parse_transaction_line ''13XYZ CR DIVIDENDS FOR 92FC 13.75 19,067.06''
       = Some \<lparr>srs_date = ''13-XYZ-24'', srs_description = ''CR DIVIDENDS FOR 92FC'',
               srs_credit = ''13.75''\<rparr>"
  by code_simp

section \<open>The two definitions of the UOB section bounder\<close>

text \<open>
  Claim C2 describes the first definition of \<open>extract_section_text\<close>, which the second
  definition replaces.  On the document \<open>split_marker_doc\<close> the tolerant pattern finds no
  start marker; the first definition finds the marker in the text without white space
  and returns the whole section, the second (the one the script runs) reports the
  marker as missing, and the document yields no rows.
\<close>

theorem shadowed_fallback_example:
  "re_search uob_START_MARKER_RE split_marker_doc = None
   \<and> uob_extract_section_text_first split_marker_doc = Inr (Some split_marker_doc)
   \<and> uob_extract_section_text split_marker_doc = None
   \<and> uob_extract_rows_from_pdf year_value split_marker_doc = []"
proof -
  have h: "re_search uob_START_MARKER_RE split_marker_doc = None"
    by code_simp
  have f: "uob_extract_section_text_first split_marker_doc = Inr (Some split_marker_doc)"
    by code_simp
  from h f show ?thesis
    by (simp add: uob_extract_section_text_def uob_extract_rows_from_pdf_def)
qed

section \<open>Repeated segments of the AMEX bounder\<close>

subsection \<open>The matcher on patterns without groups and anchors\<close>

declare ms.simps(6,7) [simp del] rests.simps(6,7) [simp del]

lemma ms_suffix:
  "(g', p', s') \<in> set (ms r st) \<Longrightarrow> \<exists>pre. snd (snd st) = pre @ s'"
proof (induction r st arbitrary: g' p' s' rule: ms.induct)
  case (1 st)
  then show ?case by auto
next
  case (2 a g p)
  then show ?case by simp
next
  case (3 a g p c cs)
  then show ?case by (simp split: if_splits)
next
  case (4 r1 r2 st)
  from "4.prems" obtain g1 p1 s1 where a: "(g1, p1, s1) \<in> set (ms r1 st)"
    and b: "(g', p', s') \<in> set (ms r2 (g1, p1, s1))"
    by auto
  from "4.IH"(1) [OF a] obtain pre1 where "snd (snd st) = pre1 @ s1" by auto
  moreover from "4.IH"(2) [OF a b] obtain pre2 where "s1 = pre2 @ s'" by auto
  ultimately show ?case by simp
next
  case (5 r1 r2 st)
  then show ?case by auto
next
  case (6 r g p s)
  show ?case
  proof (cases "(g', p', s') = (g, p, s)")
    case True
    then show ?thesis by simp
  next
    case False
    with "6.prems" obtain g1 p1 s1 where a: "(g1, p1, s1) \<in> set (ms r (g, p, s))"
      and l: "length s1 < length s"
      and b: "(g', p', s') \<in> set (ms (Star r) (g1, p1, s1))"
      by (subst (asm) ms.simps(6)) (auto split: if_splits)
    from "6.IH"(1) [OF a] obtain pre1 where "s = pre1 @ s1" by auto
    moreover from "6.IH"(2) [OF a refl refl l b] obtain pre2 where "s1 = pre2 @ s'" by auto
    ultimately show ?thesis by simp
  qed
next
  case (7 r g p s)
  show ?case
  proof (cases "(g', p', s') = (g, p, s)")
    case True
    then show ?thesis by simp
  next
    case False
    with "7.prems" obtain g1 p1 s1 where a: "(g1, p1, s1) \<in> set (ms r (g, p, s))"
      and l: "length s1 < length s"
      and b: "(g', p', s') \<in> set (ms (LazyStar r) (g1, p1, s1))"
      by (subst (asm) ms.simps(7)) (auto split: if_splits)
    from "7.IH"(1) [OF a] obtain pre1 where "s = pre1 @ s1" by auto
    moreover from "7.IH"(2) [OF a refl refl l b] obtain pre2 where "s1 = pre2 @ s'" by auto
    ultimately show ?thesis by simp
  qed
next
  case (8 n r g p s)
  then show ?case by auto
next
  case (9 g p s)
  then show ?case by (simp split: if_splits)
next
  case (10 g p s)
  then show ?case by (simp split: if_splits)
next
  case (11 g p s)
  then show ?case by (simp split: if_splits)
next
  case (12 r st)
  then show ?case by (cases st) (simp split: if_splits)
qed


lemma ms_plain_rests:
  "plain r \<Longrightarrow> map (\<lambda>st. snd (snd st)) (ms r st) = rests r (snd (snd st))"
proof (induction r st rule: ms.induct)
  case (4 r1 r2 st)
  then have p1: "plain r1" and p2: "plain r2" by simp_all
  have "map (\<lambda>st. snd (snd st)) (ms (Seq r1 r2) st)
          = concat (map (\<lambda>x. map (\<lambda>st. snd (snd st)) (ms r2 x)) (ms r1 st))"
    by (simp add: map_concat comp_def)
  also have "\<dots> = concat (map (\<lambda>x. rests r2 (snd (snd x))) (ms r1 st))"
    using "4.IH"(2) [OF _ p2] by (simp cong: map_cong)
  also have "\<dots> = concat (map (rests r2) (map (\<lambda>st. snd (snd st)) (ms r1 st)))"
    by (simp add: comp_def)
  also have "\<dots> = rests (Seq r1 r2) (snd (snd st))"
    using "4.IH"(1) [OF p1] by simp
  finally show ?case .
next
  case (6 r g p s)
  then have pr: "plain r" by simp
  have "map (\<lambda>st. snd (snd st)) (ms (Star r) (g, p, s))
          = concat (map (\<lambda>x. map (\<lambda>st. snd (snd st))
                (case x of (g', p', s') \<Rightarrow> if length s' < length s then ms (Star r) (g', p', s') else []))
              (ms r (g, p, s))) @ [s]"
    by (simp add: ms.simps(6) map_concat comp_def)
  also have "\<dots> = concat (map (\<lambda>x. if length (snd (snd x)) < length s then rests (Star r) (snd (snd x)) else [])
              (ms r (g, p, s))) @ [s]"
    using "6.IH"(2) [OF _ refl refl] "6.prems"
    by (auto intro!: arg_cong [where f = concat] cong: map_cong)
  also have "\<dots> = concat (map (\<lambda>s'. if length s' < length s then rests (Star r) s' else [])
              (map (\<lambda>st. snd (snd st)) (ms r (g, p, s)))) @ [s]"
    by (simp add: comp_def)
  also have "\<dots> = rests (Star r) (snd (snd (g, p, s)))"
    using "6.IH"(1) [OF pr] by (simp add: rests.simps(6))
  finally show ?case .
next
  case (7 r g p s)
  then have pr: "plain r" by simp
  have "map (\<lambda>st. snd (snd st)) (ms (LazyStar r) (g, p, s))
          = s # concat (map (\<lambda>x. map (\<lambda>st. snd (snd st))
                (case x of (g', p', s') \<Rightarrow> if length s' < length s then ms (LazyStar r) (g', p', s') else []))
              (ms r (g, p, s)))"
    by (simp add: ms.simps(7) map_concat comp_def)
  also have "\<dots> = s # concat (map (\<lambda>x. if length (snd (snd x)) < length s then rests (LazyStar r) (snd (snd x)) else [])
              (ms r (g, p, s)))"
    using "7.IH"(2) [OF _ refl refl] "7.prems"
    by (auto intro!: arg_cong [where f = concat] cong: map_cong)
  also have "\<dots> = s # concat (map (\<lambda>s'. if length s' < length s then rests (LazyStar r) s' else [])
              (map (\<lambda>st. snd (snd st)) (ms r (g, p, s))))"
    by (simp add: comp_def)
  also have "\<dots> = rests (LazyStar r) (snd (snd (g, p, s)))"
    using "7.IH"(1) [OF pr] by (simp add: rests.simps(7))
  finally show ?case .
qed simp_all

lemma ms_plain_caps:
  "plain r \<Longrightarrow> (g', p', s') \<in> set (ms r st) \<Longrightarrow> g' = fst st"
proof (induction r st arbitrary: g' p' s' rule: ms.induct)
  case (4 r1 r2 st)
  from "4.prems" obtain g1 p1 s1 where a: "(g1, p1, s1) \<in> set (ms r1 st)"
    and b: "(g', p', s') \<in> set (ms r2 (g1, p1, s1))"
    by auto
  from "4.prems" have p1: "plain r1" and p2: "plain r2" by simp_all
  from "4.IH"(1) [OF p1 a] "4.IH"(2) [OF a p2 b] show ?case by simp
next
  case (6 r g p s)
  show ?case
  proof (cases "(g', p', s') = (g, p, s)")
    case True
    then show ?thesis by simp
  next
    case False
    with "6.prems"(2) obtain g1 p1 s1 where a: "(g1, p1, s1) \<in> set (ms r (g, p, s))"
      and l: "length s1 < length s"
      and b: "(g', p', s') \<in> set (ms (Star r) (g1, p1, s1))"
      by (subst (asm) ms.simps(6)) (auto split: if_splits)
    from "6.prems"(1) have pr: "plain r" by simp
    from "6.IH"(1) [OF pr a] "6.IH"(2) [OF a refl refl l "6.prems"(1) b] show ?thesis by simp
  qed
next
  case (7 r g p s)
  show ?case
  proof (cases "(g', p', s') = (g, p, s)")
    case True
    then show ?thesis by simp
  next
    case False
    with "7.prems"(2) obtain g1 p1 s1 where a: "(g1, p1, s1) \<in> set (ms r (g, p, s))"
      and l: "length s1 < length s"
      and b: "(g', p', s') \<in> set (ms (LazyStar r) (g1, p1, s1))"
      by (subst (asm) ms.simps(7)) (auto split: if_splits)
    from "7.prems"(1) have pr: "plain r" by simp
    from "7.IH"(1) [OF pr a] "7.IH"(2) [OF a refl refl l "7.prems"(1) b] show ?thesis by simp
  qed
qed (auto split: if_splits)


lemma ms_plain_empty: "plain r \<Longrightarrow> (ms r (g, p, s) = []) = (\<not> hits r s)"
  using ms_plain_rests [of r "(g, p, s)"] by (auto simp: hits_def)

lemma ms_plain_head:
  assumes "plain r" and "ms r (g, p, s) = (g1, p1, s1) # others"
  shows "g1 = g \<and> rests r s = s1 # map (\<lambda>st. snd (snd st)) others"
proof -
  from assms(2) have "(g1, p1, s1) \<in> set (ms r (g, p, s))" by simp
  from ms_plain_caps [OF assms(1) this] have "g1 = g" by simp
  moreover from ms_plain_rests [OF assms(1), of "(g, p, s)"] assms(2)
  have "rests r s = s1 # map (\<lambda>st. snd (snd st)) others" by simp
  ultimately show ?thesis by simp
qed

lemma finditer_mend_bound:
  "m \<in> set (finditer_from r i p s) \<Longrightarrow> i \<le> mend m"
proof (induction r i p s rule: finditer_from.induct)
  case (1 r i p)
  then show ?case by (auto simp: mk_match_def split: list.splits)
next
  case (2 r i p c cs)
  show ?case
  proof (cases "ms r ([], p, c # cs)")
    case Nil
    with 2 show ?thesis by fastforce
  next
    case (Cons st others)
    obtain g1 p1 s1 where st: "st = (g1, p1, s1)" by (cases st) auto
    with Cons have C: "ms r ([], p, c # cs) = (g1, p1, s1) # others" by simp
    show ?thesis
    proof (cases "m = mk_match i (c # cs) (g1, p1, s1)")
      case True
      then show ?thesis by (simp add: mk_match_def)
    next
      case False
      show ?thesis
      proof (cases "length s1 \<le> length cs")
        case True
        with False "2.prems" C
        have "m \<in> set (finditer_from r (i + (length (c # cs) - length s1)) p1 s1)" by simp
        from "2.IH"(2) [OF C refl refl True this] show ?thesis by simp
      next
        case F2: False
        with False "2.prems" C
        have "m \<in> set (finditer_from r (Suc i) (Some c) cs)" by simp
        from "2.IH"(3) [OF C refl refl F2 this] show ?thesis by simp
      qed
    qed
  qed
qed

lemma match_ends_Nil:
  "match_ends r i p [] = (case ms r ([], p, []) of [] \<Rightarrow> [] | st # others \<Rightarrow> [[]])"
  by (simp add: match_ends_def split: list.splits)

lemma match_ends_shift:
  "map (\<lambda>m. drop (mend m - i) s) (finditer_from r (i + n) p (drop n s)) = match_ends r (i + n) p (drop n s)"
proof -
  have "drop (mend m - i) s = drop (mend m - (i + n)) (drop n s)"
    if "m \<in> set (finditer_from r (i + n) p (drop n s))" for m
  proof -
    from finditer_mend_bound [OF that] have "mend m - (i + n) + n = mend m - i" by simp
    then show ?thesis by (simp add: add.commute)
  qed
  then show ?thesis
    by (simp add: match_ends_def cong: map_cong)
qed

lemma match_ends_Cons:
  "match_ends r i p (c # cs) =
     (case ms r ([], p, c # cs) of
        [] \<Rightarrow> match_ends r (Suc i) (Some c) cs
      | (g1, p1, s1) # others \<Rightarrow>
          s1 # (if length s1 \<le> length cs
                then match_ends r (i + (Suc (length cs) - length s1)) p1 s1
                else match_ends r (Suc i) (Some c) cs))"
proof -
  have step: "map (\<lambda>m. drop (mend m - i) (c # cs)) (finditer_from r (Suc i) (Some c) cs)
                = match_ends r (Suc i) (Some c) cs"
    using match_ends_shift [of i "c # cs" r 1 "Some c"] by simp
  show ?thesis
  proof (cases "ms r ([], p, c # cs)")
    case Nil
    then have "finditer_from r i p (c # cs) = finditer_from r (Suc i) (Some c) cs" by simp
    then show ?thesis
      using Nil step by (simp add: match_ends_def [of r i p "c # cs"])
  next
    case (Cons st others)
    obtain g1 p1 s1 where st: "st = (g1, p1, s1)" by (cases st) auto
    with Cons have C: "ms r ([], p, c # cs) = (g1, p1, s1) # others" by simp
    then have "(g1, p1, s1) \<in> set (ms r ([], p, c # cs))" by simp
    from ms_suffix [OF this] obtain pre where pre: "c # cs = pre @ s1" by auto
    then have n1: "Suc (length cs) - length s1 = length pre"
      by (metis add_diff_cancel_right' length_Cons length_append)
    have s1: "drop (length pre) (c # cs) = s1"
      using pre by simp
    have hd: "drop (mend (mk_match i (c # cs) (g1, p1, s1)) - i) (c # cs) = s1"
      using n1 s1 by (simp add: mk_match_def)
    show ?thesis
    proof (cases "length s1 \<le> length cs")
      case True
      with C have fi: "finditer_from r i p (c # cs)
          = mk_match i (c # cs) (g1, p1, s1) # finditer_from r (i + length pre) p1 s1"
        using n1 by simp
      have "map (\<lambda>m. drop (mend m - i) (c # cs)) (finditer_from r (i + length pre) p1 s1)
              = match_ends r (i + length pre) p1 s1"
        using match_ends_shift [of i "c # cs" r "length pre" p1] s1 by simp
      then show ?thesis
        using C True hd n1 by (simp add: match_ends_def [of r i p "c # cs"] fi)
    next
      case False
      with C have fi: "finditer_from r i p (c # cs)
          = mk_match i (c # cs) (g1, p1, s1) # finditer_from r (Suc i) (Some c) cs"
        by simp
      show ?thesis
        using C False hd step by (simp add: match_ends_def [of r i p "c # cs"] fi)
    qed
  qed
qed


lemma rests_suffix:
  assumes "plain r" and "s' \<in> set (rests r s)"
  shows "\<exists>pre. s = pre @ s'"
proof -
  from assms ms_plain_rests [OF assms(1), of "([], None, s)"]
  have "s' \<in> set (map (\<lambda>st. snd (snd st)) (ms r ([], None, s)))" by simp
  then obtain g1 p1 where "(g1, p1, s') \<in> set (ms r ([], None, s))" by auto
  from ms_suffix [OF this] show ?thesis by simp
qed

lemma rests_length: "plain r \<Longrightarrow> s' \<in> set (rests r s) \<Longrightarrow> length s' \<le> length s"
  using rests_suffix by fastforce

lemma rests_atom_seq_length:
  assumes "plain r" and "s' \<in> set (rests (Seq (Atom a) r) s)"
  shows "length s' < length s"
proof (cases s)
  case Nil
  with assms(2) show ?thesis by simp
next
  case (Cons c cs)
  with assms(2) have "s' \<in> set (rests r cs)" by (simp split: if_splits)
  from rests_length [OF assms(1) this] Cons show ?thesis by simp
qed

lemma rests_seq_length:
  assumes "plain r2" and "\<And>s s'. s' \<in> set (rests r1 s) \<Longrightarrow> length s' < length s"
    and "s' \<in> set (rests (Seq r1 r2) s)"
  shows "length s' < length s"
proof -
  from assms(3) obtain s1 where a: "s1 \<in> set (rests r1 s)" and b: "s' \<in> set (rests r2 s1)"
    by auto
  from assms(2) [OF a] rests_length [OF assms(1) b] show ?thesis by simp
qed

subsection \<open>The marker patterns\<close>

lemma plain_lit_i: "plain (lit_i s)"
  by (induction s) (simp_all add: lit_i_def)

lemma plain_start: "plain amex_start_marker_re"
  by (simp add: amex_start_marker_re_def seqs_def plain_lit_i ws0_def ws1_def plus_def)

lemma plain_terminator: "plain amex_terminator"
  by (simp add: amex_terminator_def plain_start plain_lit_i)

lemma start_consumes:
  "s' \<in> set (rests amex_start_marker_re s) \<Longrightarrow> length s' < length s"
proof -
  have a: "amex_start_marker_re
        = Seq (lit_i ''Details'')
            (seqs [ws1, lit_i ''Foreign'', ws1, lit_i ''Spending'', ws1, lit_i ''Amount'', ws0, lit_i ''S$''])"
    by (simp add: amex_start_marker_re_def seqs_def)
  have b: "lit_i ''Details'' = Seq (Atom (OneOf [lower_char (CHR ''D''), upper_char (CHR ''D'')])) (lit_i ''etails'')"
    by (simp add: lit_i_def)
  have p: "plain (seqs [ws1, lit_i ''Foreign'', ws1, lit_i ''Spending'', ws1, lit_i ''Amount'', ws0, lit_i ''S$''])"
    by (simp add: seqs_def plain_lit_i ws0_def ws1_def plus_def)
  have "length t' < length t" if "t' \<in> set (rests (lit_i ''Details'') t)" for t t'
    using that rests_atom_seq_length [OF plain_lit_i, of t' _ "''etails''" t] unfolding b by simp
  from rests_seq_length [where ?r1.0 = "lit_i ''Details''", OF p this, of s' s]
  show "s' \<in> set (rests amex_start_marker_re s) \<Longrightarrow> length s' < length s"
    unfolding a by simp
qed

subsection \<open>Iterating a pattern that reads at least one character\<close>

lemma match_ends_plain_Nil:
  assumes "plain r" and "\<And>s s'. s' \<in> set (rests r s) \<Longrightarrow> length s' < length s"
  shows "match_ends r i p [] = []"
proof -
  have "rests r [] = []"
    using assms(2) [of _ "[]"] by (cases "rests r []") auto
  then have "ms r ([], p, []) = []"
    using ms_plain_empty [OF assms(1), of "[]" p "[]"] by (simp add: hits_def)
  then show ?thesis by (simp add: match_ends_Nil)
qed

lemma match_ends_plain_miss:
  assumes "plain r" and "\<not> hits r (c # cs)"
  shows "match_ends r i p (c # cs) = match_ends r (Suc i) (Some c) cs"
  using assms ms_plain_empty [OF assms(1), of "[]" p "c # cs"] by (simp add: match_ends_Cons)

lemma match_ends_plain_hit:
  assumes "plain r" and "\<And>s s'. s' \<in> set (rests r s) \<Longrightarrow> length s' < length s"
    and "rests r (c # cs) = s1 # others"
  shows "\<exists>i2 p2. match_ends r i p (c # cs) = s1 # match_ends r i2 p2 s1"
proof -
  from assms(3) have "hits r (c # cs)" by (simp add: hits_def)
  with ms_plain_empty [OF assms(1), of "[]" p "c # cs"]
  obtain st others' where C: "ms r ([], p, c # cs) = st # others'"
    by (cases "ms r ([], p, c # cs)") auto
  obtain g1 p1 s1' where st: "st = (g1, p1, s1')" by (cases st) auto
  from ms_plain_head [OF assms(1), of "[]" p "c # cs" g1 p1 s1' others'] C st assms(3)
  have "s1' = s1" by simp
  moreover from assms(2) [of s1 "c # cs"] assms(3) have "length s1 \<le> length cs" by simp
  ultimately have "match_ends r i p (c # cs)
      = s1 # match_ends r (i + (Suc (length cs) - length s1)) p1 s1"
    using C st by (simp add: match_ends_Cons)
  then show ?thesis by blast
qed

lemma match_ends_plain_indep:
  assumes "plain r" and cons: "\<And>s s'. s' \<in> set (rests r s) \<Longrightarrow> length s' < length s"
  shows "match_ends r i p s = match_ends r i' p' s"
proof (induction "length s" arbitrary: s i p i' p' rule: less_induct)
  case less
  show ?case
  proof (cases s)
    case Nil
    then show ?thesis
      using match_ends_plain_Nil [OF assms] by simp
  next
    case (Cons c cs)
    show ?thesis
    proof (cases "rests r (c # cs)")
      case Nil
      then have nh: "\<not> hits r (c # cs)" by (simp add: hits_def)
      have "match_ends r (Suc i) (Some c) cs = match_ends r (Suc i') (Some c) cs"
        using less [of cs] Cons by simp
      then show ?thesis
        using match_ends_plain_miss [OF assms(1) nh] Cons by simp
    next
      case (Cons s1 others)
      from match_ends_plain_hit [OF assms Cons, of i p]
      obtain i2 p2 where a: "match_ends r i p (c # cs) = s1 # match_ends r i2 p2 s1" by auto
      from match_ends_plain_hit [OF assms Cons, of i' p']
      obtain i3 p3 where b: "match_ends r i' p' (c # cs) = s1 # match_ends r i3 p3 s1" by auto
      from cons [of s1 "c # cs"] Cons have "length s1 < length s"
        using \<open>s = c # cs\<close> by simp
      from less [OF this, of i2 p2 i3 p3] a b show ?thesis
        using \<open>s = c # cs\<close> by simp
    qed
  qed
qed


subsection \<open>The first position at which a pattern matches\<close>

lemma search_first_hit:
  "plain r \<Longrightarrow> map_option mstart (search_from r i p s) = map_option (\<lambda>j. i + j) (first_hit r s)"
proof (induction s arbitrary: i p)
  case Nil
  then show ?case
    using ms_plain_empty [of r "[]" p "[]"]
    by (auto simp: mk_match_def split: list.splits)
next
  case (Cons c cs)
  show ?case
  proof (cases "hits r (c # cs)")
    case True
    then show ?thesis
      using ms_plain_empty [OF Cons.prems, of "[]" p "c # cs"]
      by (auto simp: mk_match_def split: list.splits)
  next
    case False
    then have "ms r ([], p, c # cs) = []"
      using ms_plain_empty [OF Cons.prems, of "[]" p "c # cs"] by simp
    then show ?thesis
      using False Cons.IH [OF Cons.prems, of "Suc i" "Some c"]
      by (simp add: option.map_comp comp_def)
  qed
qed

lemma is_some_search: "plain r \<Longrightarrow> is_some (re_search r s) = (first_hit r s \<noteq> None)"
  using search_first_hit [of r 0 None s]
  by (cases "search_from r 0 None s"; cases "first_hit r s") (simp_all add: re_search_def is_some_def)

lemma spec_segment_first_hit:
  "spec_segment_from s = (case first_hit amex_terminator s of None \<Rightarrow> [] | Some j \<Rightarrow> take j s)"
  using search_first_hit [OF plain_terminator, of 0 None s]
  by (cases "search_from amex_terminator 0 None s"; cases "first_hit amex_terminator s")
     (simp_all add: spec_segment_from_def re_search_def)

lemma first_hit_mono:
  assumes "\<And>s. hits r s \<Longrightarrow> hits r' s"
  shows "first_hit r s \<noteq> None \<Longrightarrow> first_hit r' s \<noteq> None"
  using assms by (induction s) (auto split: if_splits)

lemma hits_terminator:
  "hits amex_terminator s = (hits amex_start_marker_re s \<or> hits (lit_i amex_end_marker) s)"
  by (simp add: hits_def amex_terminator_def)

lemma start_hits_terminator: "hits amex_start_marker_re s \<Longrightarrow> hits amex_terminator s"
  by (simp add: hits_terminator)

lemma end_hits_terminator: "hits (lit_i amex_end_marker) s \<Longrightarrow> hits amex_terminator s"
  by (simp add: hits_terminator)

lemma match_ends_nonempty_hit:
  assumes "plain r" and "\<And>s s'. s' \<in> set (rests r s) \<Longrightarrow> length s' < length s"
  shows "match_ends r i p s \<noteq> [] \<Longrightarrow> first_hit r s \<noteq> None"
proof (induction s arbitrary: i p)
  case Nil
  then show ?case using match_ends_plain_Nil [OF assms] by simp
next
  case (Cons c cs)
  show ?case
  proof (cases "hits r (c # cs)")
    case True
    then show ?thesis by simp
  next
    case False
    with Cons.prems match_ends_plain_miss [OF assms(1) False]
    have "match_ends r (Suc i) (Some c) cs \<noteq> []" by simp
    from Cons.IH [OF this] False show ?thesis by simp
  qed
qed

lemma start_skip:
  "first_hit amex_terminator s = Some j \<Longrightarrow>
   match_ends amex_start_marker_re i p s = match_ends amex_start_marker_re i' p' (drop j s)"
proof (induction s arbitrary: j i p)
  case Nil
  then show ?case
    using match_ends_plain_indep [OF plain_start start_consumes] by (simp split: if_splits)
next
  case (Cons c cs)
  show ?case
  proof (cases "hits amex_terminator (c # cs)")
    case True
    with Cons.prems have "j = 0" by simp
    then show ?thesis
      using match_ends_plain_indep [OF plain_start start_consumes] by simp
  next
    case False
    with Cons.prems obtain j' where j': "first_hit amex_terminator cs = Some j'" and j: "j = Suc j'"
      by auto
    from False have "\<not> hits amex_start_marker_re (c # cs)"
      by (simp add: hits_terminator)
    from match_ends_plain_miss [OF plain_start this] Cons.IH [OF j'] j
    show ?thesis by simp
  qed
qed

subsection \<open>One match of the segment pattern\<close>

lemma concat_map_if: "concat (map (\<lambda>x. if P x then [x] else []) xs) = filter P xs"
  by (induction xs) simp_all

lemma lazy_dotall_Nil: "ms (LazyStar (Atom DotAll)) (g, p, []) = [(g, p, [])]"
  by (simp add: ms.simps(7))

lemma lazy_dotall_Cons:
  "ms (LazyStar (Atom DotAll)) (g, p, c # cs) = (g, p, c # cs) # ms (LazyStar (Atom DotAll)) (g, Some c, cs)"
  by (subst ms.simps(7)) simp

lemma lazy_filter:
  assumes "plain t"
  shows "s0 = pre @ s \<Longrightarrow>
    (case first_hit t s of
       None \<Rightarrow>
         filter (\<lambda>st. ms t st \<noteq> [])
           (map (\<lambda>(g', p', s'). ((n, take (length s0 - length s') s0) # g', p', s'))
              (ms (LazyStar (Atom DotAll)) (g, p, s))) = []
     | Some j \<Rightarrow>
         (\<exists>p2 others.
            filter (\<lambda>st. ms t st \<noteq> [])
              (map (\<lambda>(g', p', s'). ((n, take (length s0 - length s') s0) # g', p', s'))
                 (ms (LazyStar (Atom DotAll)) (g, p, s)))
            = ((n, pre @ take j s) # g, p2, drop j s) # others))"
proof (induction s arbitrary: pre p)
  case Nil
  then show ?case
    using ms_plain_empty [OF assms, of "(n, pre) # g" p "[]"]
    by (simp add: lazy_dotall_Nil)
next
  case (Cons c cs)
  have len: "length s0 - length (c # cs) = length pre"
    using Cons.prems by simp
  show ?case
  proof (cases "hits t (c # cs)")
    case True
    then show ?thesis
      using ms_plain_empty [OF assms, of "(n, pre) # g" p "c # cs"] Cons.prems
      by (simp add: lazy_dotall_Cons)
  next
    case False
    from Cons.prems have s0: "s0 = (pre @ [c]) @ cs" by simp
    from False have drop1: "ms t ((n, pre) # g, p, c # cs) = []"
      using ms_plain_empty [OF assms, of "(n, pre) # g" p "c # cs"] by simp
    show ?thesis
      using Cons.IH [OF s0, of "Some c"] False drop1 Cons.prems
      by (cases "first_hit t cs") (simp_all add: lazy_dotall_Cons)
  qed
qed

lemma seg_tail:
  "ms (seqs [Group n (LazyStar (Atom DotAll)), Ahead t]) (g, p, s)
     = filter (\<lambda>st. ms t st \<noteq> [])
         (map (\<lambda>(g', p', s'). ((n, take (length s - length s') s) # g', p', s'))
            (ms (LazyStar (Atom DotAll)) (g, p, s)))"
proof -
  have tail: "ms (Seq (Ahead t) Eps) = (\<lambda>st. if ms t st \<noteq> [] then [st] else [])"
    by (rule ext) simp
  have "ms (seqs [Group n (LazyStar (Atom DotAll)), Ahead t]) (g, p, s)
      = concat (map (ms (Seq (Ahead t) Eps)) (ms (Group n (LazyStar (Atom DotAll))) (g, p, s)))"
    by (simp only: seqs_def foldr.simps o_apply id_apply ms.simps(4))
  also have "\<dots> = filter (\<lambda>st. ms t st \<noteq> []) (ms (Group n (LazyStar (Atom DotAll))) (g, p, s))"
    by (simp only: tail concat_map_if)
  finally show ?thesis
    by (simp only: ms.simps(8))
qed

lemma seg_re_unfold:
  "amex_seg_re = Seq amex_start_marker_re (seqs [Group ''1'' (LazyStar (Atom DotAll)), Ahead amex_terminator])"
  by (simp add: amex_seg_re_def seqs_def)

lemma seg_miss:
  "\<not> hits amex_start_marker_re s \<Longrightarrow> ms amex_seg_re (g, p, s) = []"
  using ms_plain_empty [OF plain_start, of g p s] by (simp add: seg_re_unfold)

lemma seg_hit:
  assumes "rests amex_start_marker_re s = s1 # others"
    and "first_hit amex_terminator s1 = Some j"
  shows "\<exists>p2 others'. ms amex_seg_re ([], p, s) = ([(''1'', take j s1)], p2, drop j s1) # others'"
proof -
  from assms(1) have "hits amex_start_marker_re s" by (simp add: hits_def)
  with ms_plain_empty [OF plain_start, of "[]" p s]
  obtain st more_s where C: "ms amex_start_marker_re ([], p, s) = st # more_s"
    by (cases "ms amex_start_marker_re ([], p, s)") auto
  obtain g1 p1 s1' where st: "st = (g1, p1, s1')" by (cases st) auto
  from ms_plain_head [OF plain_start, of "[]" p s g1 p1 s1' more_s] C st assms(1)
  have g1: "g1 = []" and s1: "s1' = s1" by simp_all
  from lazy_filter [OF plain_terminator, of s1 "[]" s1 "''1''" "[]" p1] assms(2)
  obtain p2 others2 where
    "filter (\<lambda>st. ms amex_terminator st \<noteq> [])
       (map (\<lambda>(g', p', s'). ((''1'', take (length s1 - length s') s1) # g', p', s'))
          (ms (LazyStar (Atom DotAll)) ([], p1, s1)))
     = ([(''1'', take j s1)], p2, drop j s1) # others2"
    by auto
  then have "ms (seqs [Group ''1'' (LazyStar (Atom DotAll)), Ahead amex_terminator]) ([], p1, s1)
     = ([(''1'', take j s1)], p2, drop j s1) # others2"
    by (simp only: seg_tail)
  then show ?thesis
    using C st g1 s1 by (simp add: seg_re_unfold)
qed


subsection \<open>All matches of the segment pattern\<close>

lemma start_no_hit_Nil: "\<not> hits amex_start_marker_re []"
  using start_consumes [of _ "[]"] by (cases "rests amex_start_marker_re []") (auto simp: hits_def)

lemma segment_texts_Nil: "segment_texts i p [] = []"
  using seg_miss [OF start_no_hit_Nil, of "[]" p] by (simp add: segment_texts_def)

lemma segment_texts_miss:
  "\<not> hits amex_start_marker_re (c # cs) \<Longrightarrow>
   segment_texts i p (c # cs) = segment_texts (Suc i) (Some c) cs"
  using seg_miss [of "c # cs" "[]" p] by (simp add: segment_texts_def)

lemma segment_texts_hit:
  assumes "rests amex_start_marker_re (c # cs) = s1 # others"
    and "first_hit amex_terminator s1 = Some j"
  shows "\<exists>i2 p2. segment_texts i p (c # cs) = take j s1 # segment_texts i2 p2 (drop j s1)"
proof -
  from seg_hit [OF assms, of p] obtain p2 others' where
    C: "ms amex_seg_re ([], p, c # cs) = ([(''1'', take j s1)], p2, drop j s1) # others'"
    by auto
  from start_consumes [of s1 "c # cs"] assms(1) have "length s1 \<le> length cs" by simp
  then have len: "length (drop j s1) \<le> length cs" by simp
  have "finditer_from amex_seg_re i p (c # cs)
      = mk_match i (c # cs) ([(''1'', take j s1)], p2, drop j s1)
        # finditer_from amex_seg_re (i + (length (c # cs) - length (drop j s1))) p2 (drop j s1)"
    using C len by (simp del: length_drop)
  then have "segment_texts i p (c # cs)
      = take j s1 # segment_texts (i + (length (c # cs) - length (drop j s1))) p2 (drop j s1)"
    by (simp add: segment_texts_def mk_match_def group_def or_empty_def)
  then show ?thesis by blast
qed

lemma segments_follow_starts:
  "(match_ends amex_start_marker_re i' p' s \<noteq> []
      \<longrightarrow> first_hit (lit_i amex_end_marker) (last (match_ends amex_start_marker_re i' p' s)) \<noteq> None)
   \<Longrightarrow> segment_texts i p s = map spec_segment_from (match_ends amex_start_marker_re i' p' s)"
proof (induction "length s" arbitrary: s i p i' p' rule: less_induct)
  case less
  note ends_Nil = match_ends_plain_Nil [OF plain_start start_consumes]
  show ?case
  proof (cases s)
    case Nil
    then show ?thesis
      by (simp add: segment_texts_Nil ends_Nil)
  next
    case (Cons c cs)
    show ?thesis
    proof (cases "rests amex_start_marker_re (c # cs)")
      case Nil
      then have nh: "\<not> hits amex_start_marker_re (c # cs)" by (simp add: hits_def)
      have me: "match_ends amex_start_marker_re i' p' s = match_ends amex_start_marker_re (Suc i') (Some c) cs"
        using match_ends_plain_miss [OF plain_start nh] Cons by simp
      have "segment_texts (Suc i) (Some c) cs
              = map spec_segment_from (match_ends amex_start_marker_re (Suc i') (Some c) cs)"
        using less.hyps [of cs "Suc i'" "Some c" "Suc i" "Some c"] less.prems Cons me by simp
      then show ?thesis
        using segment_texts_miss [OF nh] me Cons by simp
    next
      case (Cons s1 others)
      from match_ends_plain_hit [OF plain_start start_consumes Cons, of i' p']
      obtain i2 p2 where
        me: "match_ends amex_start_marker_re i' p' s = s1 # match_ends amex_start_marker_re i2 p2 s1"
        using \<open>s = c # cs\<close> by auto
      let ?rest = "match_ends amex_start_marker_re i2 p2 s1"
      have terminated: "first_hit amex_terminator s1 \<noteq> None"
      proof (cases "?rest = []")
        case True
        with less.prems me have "first_hit (lit_i amex_end_marker) s1 \<noteq> None" by simp
        then show ?thesis
          using first_hit_mono [OF end_hits_terminator] by blast
      next
        case False
        from match_ends_nonempty_hit [OF plain_start start_consumes False]
        show ?thesis
          using first_hit_mono [OF start_hits_terminator] by blast
      qed
      from terminated obtain j where j: "first_hit amex_terminator s1 = Some j" by auto
      from segment_texts_hit [OF Cons j, of i p]
      obtain i3 p3 where
        st: "segment_texts i p s = take j s1 # segment_texts i3 p3 (drop j s1)"
        using \<open>s = c # cs\<close> by auto
      have skip: "?rest = match_ends amex_start_marker_re i3 p3 (drop j s1)"
        by (rule start_skip [OF j])
      have cond: "match_ends amex_start_marker_re i3 p3 (drop j s1) \<noteq> []
          \<longrightarrow> first_hit (lit_i amex_end_marker) (last (match_ends amex_start_marker_re i3 p3 (drop j s1))) \<noteq> None"
        using less.prems me skip by auto
      from start_consumes [of s1 "c # cs"] Cons have "length (drop j s1) < length s"
        using \<open>s = c # cs\<close> by simp
      from less.hyps [OF this cond, of i3 p3]
      have "segment_texts i3 p3 (drop j s1) = map spec_segment_from ?rest"
        using skip by simp
      then show ?thesis
        using st me j by (simp add: spec_segment_first_hit)
    qed
  qed
qed

subsection \<open>Rows of the segments\<close>

lemma amex_loop_length:
  "length (amex_loop ls rows) = length rows + length (filter amex_is_tx_line ls)"
proof (induction ls rows rule: amex_loop.induct)
  case (1 rows)
  then show ?case by simp
next
  case (2 l ls rows)
  show ?case
  proof (cases "strip l = ''CR''")
    case True
    with "2.IH"(1) show ?thesis
      by (simp add: amex_is_tx_line_def standalone_cr_length Let_def)
  next
    case ncr: False
    show ?thesis
    proof (cases "is_some (re_match amex_DATE_DDMMYY_DOTS_RE (strip l))")
      case False
      with ncr "2.IH"(2) show ?thesis
        by (simp add: amex_is_tx_line_def Let_def)
    next
      case dt: True
      show ?thesis
      proof (cases "amex_parse_transaction_line (strip l)")
        case None
        with ncr dt "2.IH"(3) show ?thesis
          by (simp add: amex_is_tx_line_def Let_def is_some_def)
      next
        case (Some rec)
        then have tx: "amex_is_tx_line l"
          using ncr dt by (simp add: amex_is_tx_line_def is_some_def)
        show ?thesis
        proof (cases ls)
          case Nil
          with ncr dt Some tx show ?thesis
            by (simp add: Let_def)
        next
          case (Cons nxt ls')
          show ?thesis
          proof (cases "strip nxt = ''CR''")
            case True
            then have "\<not> amex_is_tx_line nxt" by (simp add: amex_is_tx_line_def)
            with "2.IH"(5) [OF refl ncr _ Some Cons True] ncr dt Some tx Cons True
            show ?thesis by (simp add: Let_def)
          next
            case False
            with "2.IH"(6) [OF refl ncr _ Some Cons False] ncr dt Some tx Cons
            show ?thesis by (simp add: Let_def)
          qed
        qed
      qed
    qed
  qed
qed

lemma amex_clean_lines_append:
  "amex_clean_lines (a @ b) = amex_clean_lines a @ amex_clean_lines b"
  by (simp add: amex_clean_lines_def)

lemma rows_of_segments_length:
  "length (amex_rows_of_segments segs) = length (filter amex_is_tx_line (amex_clean_lines segs))"
  by (simp add: amex_rows_of_segments_def amex_loop_length amex_clean_lines_def)

lemma rows_of_segments_additive:
  "length (amex_rows_of_segments segs)
     = sum_list (map (\<lambda>seg. length (amex_rows_of_segments [seg])) segs)"
proof (induction segs)
  case Nil
  then show ?case by (simp add: amex_rows_of_segments_def)
next
  case (Cons seg segs)
  have "length (amex_rows_of_segments (seg # segs))
      = length (amex_rows_of_segments [seg]) + length (amex_rows_of_segments segs)"
    using amex_clean_lines_append [of "[seg]" segs]
    by (simp add: rows_of_segments_length)
  with Cons show ?case by simp
qed


subsection \<open>Matches do not overlap\<close>

lemma finditer_mstart_bound:
  "m \<in> set (finditer_from r i p s) \<Longrightarrow> i \<le> mstart m"
proof (induction r i p s rule: finditer_from.induct)
  case (1 r i p)
  then show ?case by (auto simp: mk_match_def split: list.splits)
next
  case (2 r i p c cs)
  show ?case
  proof (cases "ms r ([], p, c # cs)")
    case Nil
    with 2 show ?thesis by fastforce
  next
    case (Cons st others)
    obtain g1 p1 s1 where st: "st = (g1, p1, s1)" by (cases st) auto
    with Cons have C: "ms r ([], p, c # cs) = (g1, p1, s1) # others" by simp
    show ?thesis
    proof (cases "m = mk_match i (c # cs) (g1, p1, s1)")
      case True
      then show ?thesis by (simp add: mk_match_def)
    next
      case False
      show ?thesis
      proof (cases "length s1 \<le> length cs")
        case True
        with False "2.prems" C
        have "m \<in> set (finditer_from r (i + (length (c # cs) - length s1)) p1 s1)" by simp
        from "2.IH"(2) [OF C refl refl True this] show ?thesis by simp
      next
        case F2: False
        with False "2.prems" C
        have "m \<in> set (finditer_from r (Suc i) (Some c) cs)" by simp
        from "2.IH"(3) [OF C refl refl F2 this] show ?thesis by simp
      qed
    qed
  qed
qed

lemma finditer_non_overlapping:
  "sorted_wrt (\<lambda>a b. mend a \<le> mstart b) (finditer_from r i p s)"
proof (induction r i p s rule: finditer_from.induct)
  case (1 r i p)
  then show ?case by (simp split: list.splits)
next
  case (2 r i p c cs)
  show ?case
  proof (cases "ms r ([], p, c # cs)")
    case Nil
    with 2 show ?thesis by simp
  next
    case (Cons st others)
    obtain g1 p1 s1 where st: "st = (g1, p1, s1)" by (cases st) auto
    with Cons have C: "ms r ([], p, c # cs) = (g1, p1, s1) # others" by simp
    then have "(g1, p1, s1) \<in> set (ms r ([], p, c # cs))" by simp
    from ms_suffix [OF this] obtain pre where "c # cs = pre @ s1" by auto
    then have "length (c # cs) = length pre + length s1" by simp
    then have le: "length s1 \<le> Suc (length cs)" by simp
    show ?thesis
    proof (cases "length s1 \<le> length cs")
      case True
      have "mend (mk_match i (c # cs) (g1, p1, s1)) \<le> mstart m"
        if "m \<in> set (finditer_from r (i + (length (c # cs) - length s1)) p1 s1)" for m
        using finditer_mstart_bound [OF that] by (simp add: mk_match_def)
      with "2.IH"(2) [OF C refl refl True] C True show ?thesis by simp
    next
      case False
      with le have "length s1 = Suc (length cs)" by simp
      then have "mend (mk_match i (c # cs) (g1, p1, s1)) \<le> mstart m"
        if "m \<in> set (finditer_from r (Suc i) (Some c) cs)" for m
        using finditer_mstart_bound [OF that] by (simp add: mk_match_def)
      with "2.IH"(3) [OF C refl refl False] C False show ?thesis by simp
    qed
  qed
qed

text \<open>
  Claim C9, as amended.  Let the start marker occur \<open>n\<close> times in the document (the
  matches of \<open>start_marker_re\<close> from left to right, after the replacement of no-break
  spaces), and let the end marker occur after the last of them.  Then
  \<open>extract_marker_segments\<close> returns \<open>n\<close> segments, the segments the specification
  describes: for each occurrence of the start marker the text from the end of that
  occurrence up to the next start marker or end marker.  The matches of the segment
  pattern do not overlap.  The number of rows of the document is the sum of the numbers
  of rows that the segments yield one by one.
\<close>

theorem repeated_segments_follow_start_markers:
  assumes "t = replace_char (CHR 0xA0) (CHR '' '') text"
    and "starts = re_finditer amex_start_marker_re t"
    and "starts \<noteq> [] \<longrightarrow> is_some (re_search (lit_i amex_end_marker) (drop (mend (last starts)) t))"
  shows "extract_marker_segments text = spec_segments t
     \<and> length (extract_marker_segments text) = length starts
     \<and> sorted_wrt (\<lambda>a b. mend a \<le> mstart b) (re_finditer amex_seg_re t)
     \<and> length (amex_extract_rows_from_pdf text)
         = sum_list (map (\<lambda>seg. length (amex_rows_of_segments [seg])) (extract_marker_segments text))"
proof -
  have ends: "match_ends amex_start_marker_re 0 None t = map (\<lambda>m. drop (mend m) t) starts"
    by (simp add: match_ends_def assms(2) re_finditer_def)
  have "match_ends amex_start_marker_re 0 None t \<noteq> []
      \<longrightarrow> first_hit (lit_i amex_end_marker) (last (match_ends amex_start_marker_re 0 None t)) \<noteq> None"
    using assms(3) by (simp add: ends last_map is_some_search [OF plain_lit_i])
  from segments_follow_starts [OF this, of 0 None]
  have "segment_texts 0 None t = map spec_segment_from (match_ends amex_start_marker_re 0 None t)" .
  moreover have "extract_marker_segments text = segment_texts 0 None t"
    by (simp add: extract_marker_segments_def segment_texts_def re_finditer_def assms(1))
  moreover have "spec_segments t = map spec_segment_from (match_ends amex_start_marker_re 0 None t)"
    by (simp add: spec_segments_def match_ends_def re_finditer_def comp_def)
  ultimately have a: "extract_marker_segments text = spec_segments t"
    by simp
  then have b: "length (extract_marker_segments text) = length starts"
    by (simp add: spec_segments_def assms(2))
  have c: "sorted_wrt (\<lambda>a b. mend a \<le> mstart b) (re_finditer amex_seg_re t)"
    by (simp add: re_finditer_def finditer_non_overlapping)
  have d: "length (amex_extract_rows_from_pdf text)
         = sum_list (map (\<lambda>seg. length (amex_rows_of_segments [seg])) (extract_marker_segments text))"
    unfolding amex_extract_rows_from_pdf_def by (rule rows_of_segments_additive)
  from a b c d show ?thesis by blast
qed

theorem repeated_segments_follow_start_markers_witness:
  "re_finditer amex_start_marker_re (replace_char (CHR 0xA0) (CHR '' '') two_page_doc) \<noteq> []
   \<and> is_some (re_search (lit_i amex_end_marker)
        (drop (mend (last (re_finditer amex_start_marker_re
                             (replace_char (CHR 0xA0) (CHR '' '') two_page_doc))))
           (replace_char (CHR 0xA0) (CHR '' '') two_page_doc)))
   \<and> length (re_finditer amex_start_marker_re (replace_char (CHR 0xA0) (CHR '' '') two_page_doc)) = 2
   \<and> extract_marker_segments two_page_doc
       = [[CHR 0x0A] @ ''01.01.21 SHOP 1.00'' @ [CHR 0x0A],
          [CHR 0x0A] @ ''02.01.21 CAFE 2.50'' @ [CHR 0x0A] @ ''CR'' @ [CHR 0x0A]]
   \<and> spec_segments (replace_char (CHR 0xA0) (CHR '' '') two_page_doc)
       = [[CHR 0x0A] @ ''01.01.21 SHOP 1.00'' @ [CHR 0x0A],
          [CHR 0x0A] @ ''02.01.21 CAFE 2.50'' @ [CHR 0x0A] @ ''CR'' @ [CHR 0x0A]]
   \<and> length (amex_rows_of_segments [[CHR 0x0A] @ ''01.01.21 SHOP 1.00'' @ [CHR 0x0A]]) = 1
   \<and> length (amex_rows_of_segments [[CHR 0x0A] @ ''02.01.21 CAFE 2.50'' @ [CHR 0x0A] @ ''CR'' @ [CHR 0x0A]]) = 1
   \<and> length (amex_extract_rows_from_pdf two_page_doc) = 2"
proof -
  let ?t = "replace_char (CHR 0xA0) (CHR '' '') two_page_doc"
  let ?s1 = "[CHR 0x0A] @ ''01.01.21 SHOP 1.00'' @ [CHR 0x0A]"
  let ?s2 = "[CHR 0x0A] @ ''02.01.21 CAFE 2.50'' @ [CHR 0x0A] @ ''CR'' @ [CHR 0x0A]"
  have h1: "re_finditer amex_start_marker_re ?t \<noteq> []"
    by code_simp
  have h2: "is_some (re_search (lit_i amex_end_marker)
              (drop (mend (last (re_finditer amex_start_marker_re ?t))) ?t))"
    by code_simp
  have e1: "extract_marker_segments two_page_doc = [?s1, ?s2]"
    by code_simp
  have r1: "length (amex_rows_of_segments [?s1]) = 1"
    by code_simp
  have r2: "length (amex_rows_of_segments [?s2]) = 1"
    by code_simp
  from h2 have h: "re_finditer amex_start_marker_re ?t \<noteq> []
      \<longrightarrow> is_some (re_search (lit_i amex_end_marker)
            (drop (mend (last (re_finditer amex_start_marker_re ?t))) ?t))"
    by simp
  note main = repeated_segments_follow_start_markers [OF refl refl h]
  from main e1 have a: "spec_segments ?t = [?s1, ?s2]"
    by simp
  from main e1 have b: "length (re_finditer amex_start_marker_re ?t) = 2"
    by simp
  from main have "length (amex_extract_rows_from_pdf two_page_doc)
      = sum_list (map (\<lambda>seg. length (amex_rows_of_segments [seg])) (extract_marker_segments two_page_doc))"
    by blast
  then have c: "length (amex_extract_rows_from_pdf two_page_doc) = 2"
    unfolding e1 using r1 r2 by simp
  from h1 h2 a b c e1 r1 r2 show ?thesis
    by blast
qed

text \<open>
  Claim C9 as stated fails: in \<open>unterminated_doc\<close> the start marker occurs once and no
  end marker follows it, and the bounder returns no segment.
\<close>

theorem unterminated_segment_counterexample:
  "length (re_finditer amex_start_marker_re unterminated_doc) = 1
   \<and> extract_marker_segments unterminated_doc = []"
  by code_simp

end
